theory Spec2Isabelle
  imports Main "HOL-Library.Word" "HOL-Library.Char_ord" "HOL-Library.List_Lexorder"
    "HOL-Library.Multiset"
begin

section \<open>The task queue of pkg/utils/taskqueue.go\<close>

subsection \<open>Collaborators: the work queue interface, the callbacks, the logger\<close>

text \<open>
  A Go \<^verbatim>\<open>error\<close> is represented by its message; \<^verbatim>\<open>nil\<close> is \<open>None\<close> where the
  error stands alone, and a \<^verbatim>\<open>(string, error)\<close> result is a sum with the error on the
  left.
\<close>

type_synonym err = string

text \<open>
  \<^verbatim>\<open>workqueue.RateLimitingInterface\<close>: the six methods the task queue calls, as
  functions on the state \<open>'q\<close> of whatever implements the interface. \<^verbatim>\<open>Get\<close> returns
  the pair \<^verbatim>\<open>(key, quit)\<close>; it blocks while there is nothing to return, which is the
  result \<open>None\<close>. Only strings are ever added by this package, so the item type is
  \<open>string\<close> and the assertion \<^verbatim>\<open>key.(string)\<close> of \<^verbatim>\<open>Run\<close> cannot fail.
\<close>

record 'q RateLimitingInterface =
  Add :: "string \<Rightarrow> 'q \<Rightarrow> 'q"
  AddRateLimited :: "string \<Rightarrow> 'q \<Rightarrow> 'q"
  Forget :: "string \<Rightarrow> 'q \<Rightarrow> 'q"
  Done :: "string \<Rightarrow> 'q \<Rightarrow> 'q"
  Get :: "'q \<Rightarrow> ((string \<times> bool) \<times> 'q) option"
  ShutDown :: "'q \<Rightarrow> 'q"

text \<open>
  The lines written by \<^verbatim>\<open>klog.Errorf\<close>. The \<^verbatim>\<open>klog.V(n).Infof\<close> lines depend on the
  verbosity flag and influence nothing; they are left out.
\<close>

datatype 'obj log_entry =
  CouldntGetKey 'obj err
| Requeuing string err string

text \<open>
  Every call the task queue makes on its collaborators is recorded, in order, so that
  the order of calls can be stated.
\<close>

datatype call =
  CallAdd string
| CallGet string bool
| CallSync string "err option"
| CallAddRateLimited string
| CallForget string
| CallDone string
| CallShutDown
| CloseWorkerDone

text \<open>
  The mutable state the methods work on: the state behind \<^verbatim>\<open>t.queue\<close>, the state
  the \<^verbatim>\<open>sync\<close> callback reads and writes, whether the channel \<^verbatim>\<open>t.workerDone\<close>
  has been closed, the error log and the record of calls.
\<close>

record ('q, 'u, 'obj) world =
  wq :: 'q
  app :: 'u
  workerDone :: bool
  klog :: "'obj log_entry list"
  calls :: "call list"

text \<open>
  \<^verbatim>\<open>type PeriodicTaskQueue struct\<close>: the immutable fields. The channel
  \<^verbatim>\<open>workerDone\<close> is the flag of the same name in the state.
\<close>

record ('q, 'u, 'obj) PeriodicTaskQueue =
  resource :: string
  keyFunc :: "'obj \<Rightarrow> err + string"
  queue :: "'q RateLimitingInterface"
  sync :: "string \<Rightarrow> 'u \<Rightarrow> err option \<times> 'u"

definition queue_Add ::
  "('q, 'u, 'obj) PeriodicTaskQueue \<Rightarrow> string \<Rightarrow> ('q, 'u, 'obj) world \<Rightarrow> ('q, 'u, 'obj) world" where
  "queue_Add t key s = s\<lparr>wq := Add (queue t) key (wq s), calls := calls s @ [CallAdd key]\<rparr>"

definition queue_AddRateLimited ::
  "('q, 'u, 'obj) PeriodicTaskQueue \<Rightarrow> string \<Rightarrow> ('q, 'u, 'obj) world \<Rightarrow> ('q, 'u, 'obj) world" where
  "queue_AddRateLimited t key s =
     s\<lparr>wq := AddRateLimited (queue t) key (wq s), calls := calls s @ [CallAddRateLimited key]\<rparr>"

definition queue_Forget ::
  "('q, 'u, 'obj) PeriodicTaskQueue \<Rightarrow> string \<Rightarrow> ('q, 'u, 'obj) world \<Rightarrow> ('q, 'u, 'obj) world" where
  "queue_Forget t key s =
     s\<lparr>wq := Forget (queue t) key (wq s), calls := calls s @ [CallForget key]\<rparr>"

definition queue_Done ::
  "('q, 'u, 'obj) PeriodicTaskQueue \<Rightarrow> string \<Rightarrow> ('q, 'u, 'obj) world \<Rightarrow> ('q, 'u, 'obj) world" where
  "queue_Done t key s = s\<lparr>wq := Done (queue t) key (wq s), calls := calls s @ [CallDone key]\<rparr>"

definition queue_ShutDown ::
  "('q, 'u, 'obj) PeriodicTaskQueue \<Rightarrow> ('q, 'u, 'obj) world \<Rightarrow> ('q, 'u, 'obj) world" where
  "queue_ShutDown t s = s\<lparr>wq := ShutDown (queue t) (wq s), calls := calls s @ [CallShutDown]\<rparr>"

definition queue_Get ::
  "('q, 'u, 'obj) PeriodicTaskQueue \<Rightarrow> ('q, 'u, 'obj) world
     \<Rightarrow> ((string \<times> bool) \<times> ('q, 'u, 'obj) world) option" where
  "queue_Get t s =
     (case Get (queue t) (wq s) of
        None \<Rightarrow> None
      | Some ((key, quit), q') \<Rightarrow>
          Some ((key, quit), s\<lparr>wq := q', calls := calls s @ [CallGet key quit]\<rparr>))"

definition call_sync ::
  "('q, 'u, 'obj) PeriodicTaskQueue \<Rightarrow> string \<Rightarrow> ('q, 'u, 'obj) world
     \<Rightarrow> err option \<times> ('q, 'u, 'obj) world" where
  "call_sync t key s =
     (case sync t key (app s) of
        (e, u') \<Rightarrow> (e, s\<lparr>app := u', calls := calls s @ [CallSync key e]\<rparr>))"

text \<open>\<^verbatim>\<open>close(t.workerDone)\<close>: closing a closed channel panics (\<open>None\<close>).\<close>

definition close_workerDone :: "('q, 'u, 'obj) world \<Rightarrow> ('q, 'u, 'obj) world option" where
  "close_workerDone s =
     (if workerDone s then None
      else Some (s\<lparr>workerDone := True, calls := calls s @ [CloseWorkerDone]\<rparr>))"

subsection \<open>Enqueue\<close>

text \<open>
  \<^verbatim>\<open>func (t *PeriodicTaskQueue) Enqueue(objs ...interface{})\<close>. The loop over
  \<^verbatim>\<open>objs\<close>; when \<^verbatim>\<open>keyFunc\<close> fails the error is logged and the function returns.
\<close>

fun Enqueue ::
  "('q, 'u, 'obj) PeriodicTaskQueue \<Rightarrow> 'obj list \<Rightarrow> ('q, 'u, 'obj) world \<Rightarrow> ('q, 'u, 'obj) world" where
  "Enqueue t [] s = s"
| "Enqueue t (obj # objs) s =
     (case keyFunc t obj of
        Inl e \<Rightarrow> s\<lparr>klog := klog s @ [CouldntGetKey obj e]\<rparr>
      | Inr key \<Rightarrow> Enqueue t objs (queue_Add t key s))"

subsection \<open>Run\<close>

text \<open>
  The body of the loop of \<^verbatim>\<open>Run\<close> after \<^verbatim>\<open>Get\<close> has returned a key: the call of
  \<^verbatim>\<open>sync\<close>, then \<^verbatim>\<open>AddRateLimited\<close> (with the error logged) or \<^verbatim>\<open>Forget\<close>, then
  \<^verbatim>\<open>Done\<close>.
\<close>

definition Run_body ::
  "('q, 'u, 'obj) PeriodicTaskQueue \<Rightarrow> string \<Rightarrow> ('q, 'u, 'obj) world \<Rightarrow> ('q, 'u, 'obj) world" where
  "Run_body t key s =
     (case call_sync t key s of
        (Some e, s1) \<Rightarrow>
          queue_Done t key
            (queue_AddRateLimited t key (s1\<lparr>klog := klog s1 @ [Requeuing key e (resource t)]\<rparr>))
      | (None, s1) \<Rightarrow> queue_Done t key (queue_Forget t key s1))"

text \<open>
  How an execution of \<^verbatim>\<open>Run\<close> stands: it has returned, it has panicked, it is blocked
  in \<^verbatim>\<open>Get\<close>, or it is still looping when the observation ends.
\<close>

datatype outcome = Returned | Panicked | WaitingInGet | StillRunning

text \<open>
  \<^verbatim>\<open>func (t *PeriodicTaskQueue) Run()\<close>. The loop has no bound of its own, so the
  model observes at most \<open>n\<close> iterations of it. \<^verbatim>\<open>Run\<close> returns no value: the
  outcome only says where the execution stands.
\<close>

fun Run ::
  "nat \<Rightarrow> ('q, 'u, 'obj) PeriodicTaskQueue \<Rightarrow> ('q, 'u, 'obj) world
     \<Rightarrow> outcome \<times> ('q, 'u, 'obj) world" where
  "Run 0 t s = (StillRunning, s)"
| "Run (Suc n) t s =
     (case queue_Get t s of
        None \<Rightarrow> (WaitingInGet, s)
      | Some ((key, quit), s1) \<Rightarrow>
          if quit then
            (case close_workerDone s1 of
               None \<Rightarrow> (Panicked, s1)
             | Some s2 \<Rightarrow> (Returned, s2))
          else Run n t (Run_body t key s1))"

subsection \<open>Shutdown\<close>

text \<open>
  \<^verbatim>\<open>func (t *PeriodicTaskQueue) Shutdown()\<close> is two steps: the call of
  \<^verbatim>\<open>t.queue.ShutDown()\<close>, and the receive \<^verbatim>\<open><-t.workerDone\<close>, which completes only
  once the channel is closed (\<open>None\<close> while it is not).
\<close>

definition Shutdown_call ::
  "('q, 'u, 'obj) PeriodicTaskQueue \<Rightarrow> ('q, 'u, 'obj) world \<Rightarrow> ('q, 'u, 'obj) world" where
  "Shutdown_call t s = queue_ShutDown t s"

definition Shutdown_receive :: "('q, 'u, 'obj) world \<Rightarrow> ('q, 'u, 'obj) world option" where
  "Shutdown_receive s = (if workerDone s then Some s else None)"

text \<open>
  The whole of \<^verbatim>\<open>Shutdown\<close> when no other goroutine moves meanwhile: \<open>None\<close> when
  the caller stays blocked in the receive.
\<close>

definition Shutdown ::
  "('q, 'u, 'obj) PeriodicTaskQueue \<Rightarrow> ('q, 'u, 'obj) world \<Rightarrow> ('q, 'u, 'obj) world option" where
  "Shutdown t s = Shutdown_receive (Shutdown_call t s)"

subsection \<open>The work queue behind the interface\<close>

text \<open>
  Modelled from the spec: the package \<^verbatim>\<open>k8s.io/client-go/util/workqueue\<close> (the rate
  limiter and the rate-limiting queue that \<^verbatim>\<open>NewPeriodicTaskQueueWithLimiter\<close>
  instantiates) is not among the sources. The spec's data model gives the state: the
  PendingSet (kept as a list, in arrival order), the ActiveSet, the per-key
  RateLimiterState (the number of failures since the last success; base state \<open>0\<close>),
  the keys scheduled for a later time with their delays, and the closed flag. The name
  identifies the instance for diagnostics only.
\<close>

record WorkQueue =
  queueName :: string
  PendingSet :: "string list"
  ActiveSet :: "string set"
  RateLimiterState :: "string \<Rightarrow> nat"
  scheduled :: "(string \<times> nat) list"
  closed :: bool

text \<open>
  Modelled from the spec: the pluggable backoff policy \<^verbatim>\<open>workqueue.RateLimiter\<close>, as
  the delay it answers for a key in a given limiter state.
\<close>

type_synonym RateLimiter = "nat \<Rightarrow> nat"

text \<open>
  Modelled from the spec: \<^verbatim>\<open>Add(key)\<close> "inserts key into PendingSet if absent; no-op
  if already pending; does not bypass rate limiting".
\<close>

definition wq_Add :: "string \<Rightarrow> WorkQueue \<Rightarrow> WorkQueue" where
  "wq_Add key q =
     (if key \<in> set (PendingSet q) then q else q\<lparr>PendingSet := PendingSet q @ [key]\<rparr>)"

text \<open>
  Modelled from the spec: \<^verbatim>\<open>AddRateLimited(key)\<close> "schedules key for future
  eligibility according to RateLimiterState(key), then advances that key's limiter
  state".
\<close>

definition wq_AddRateLimited :: "RateLimiter \<Rightarrow> string \<Rightarrow> WorkQueue \<Rightarrow> WorkQueue" where
  "wq_AddRateLimited rl key q =
     q\<lparr>scheduled := scheduled q @ [(key, rl (RateLimiterState q key))],
       RateLimiterState := (RateLimiterState q)(key := Suc (RateLimiterState q key))\<rparr>"

text \<open>
  Modelled from the spec: \<^verbatim>\<open>Forget(key)\<close> "resets RateLimiterState(key) to base".
\<close>

definition wq_Forget :: "string \<Rightarrow> WorkQueue \<Rightarrow> WorkQueue" where
  "wq_Forget key q = q\<lparr>RateLimiterState := (RateLimiterState q)(key := 0)\<rparr>"

text \<open>
  Modelled from the spec: \<^verbatim>\<open>Done(key)\<close> "removes key from ActiveSet; if the key was
  re-added while active, it becomes eligible for a future Get()". A key re-added while
  active sits in the PendingSet, where \<^verbatim>\<open>Get\<close> passes over it until it has left the
  ActiveSet.
\<close>

definition wq_Done :: "string \<Rightarrow> WorkQueue \<Rightarrow> WorkQueue" where
  "wq_Done key q = q\<lparr>ActiveSet := ActiveSet q - {key}\<rparr>"

text \<open>
  Modelled from the spec: \<^verbatim>\<open>Get()\<close> "blocks the calling worker until a key is
  available or the queue is shut down; returns the key plus a closed flag. Moves the key
  from PendingSet into ActiveSet"; after \<^verbatim>\<open>ShutDown()\<close> it "returns the closed flag
  with no key". A pending key is available when it is not in the ActiveSet.
\<close>

definition wq_Get :: "WorkQueue \<Rightarrow> ((string \<times> bool) \<times> WorkQueue) option" where
  "wq_Get q =
     (if closed q then Some (([], True), q)
      else
        (case filter (\<lambda>k. k \<notin> ActiveSet q) (PendingSet q) of
           [] \<Rightarrow> None
         | key # _ \<Rightarrow>
             Some ((key, False),
               q\<lparr>PendingSet := remove1 key (PendingSet q),
                 ActiveSet := insert key (ActiveSet q)\<rparr>)))"

text \<open>
  Modelled from the spec: \<^verbatim>\<open>ShutDown()\<close> "marks the queue closed".
\<close>

definition wq_ShutDown :: "WorkQueue \<Rightarrow> WorkQueue" where
  "wq_ShutDown q = q\<lparr>closed := True\<rparr>"

text \<open>
  Modelled from the spec: a key scheduled by \<^verbatim>\<open>AddRateLimited\<close> becomes "eligible
  again after backoff". When the delay of a scheduled key has passed the library adds
  the key as \<^verbatim>\<open>Add\<close> does; nothing happens for a key that is not scheduled.
\<close>

definition wq_elapsed :: "string \<Rightarrow> WorkQueue \<Rightarrow> WorkQueue" where
  "wq_elapsed key q =
     (case map_of (scheduled q) key of
        None \<Rightarrow> q
      | Some d \<Rightarrow> wq_Add key (q\<lparr>scheduled := remove1 (key, d) (scheduled q)\<rparr>))"

text \<open>
  Modelled from the spec: the two constructors of the library, which differ in the name
  only. Each gives the implementation of the interface over a limiter and the state of
  a queue just made.
\<close>

definition rateLimitingQueue :: "RateLimiter \<Rightarrow> WorkQueue RateLimitingInterface" where
  "rateLimitingQueue rl =
     \<lparr>Add = wq_Add, AddRateLimited = wq_AddRateLimited rl, Forget = wq_Forget,
      Done = wq_Done, Get = wq_Get, ShutDown = wq_ShutDown\<rparr>"

definition NewNamedRateLimitingQueue ::
  "RateLimiter \<Rightarrow> string \<Rightarrow> WorkQueue RateLimitingInterface \<times> WorkQueue" where
  "NewNamedRateLimitingQueue rl name =
     (rateLimitingQueue rl,
      \<lparr>queueName = name, PendingSet = [], ActiveSet = {}, RateLimiterState = (\<lambda>_. 0),
       scheduled = [], closed = False\<rparr>)"

definition NewRateLimitingQueue ::
  "RateLimiter \<Rightarrow> WorkQueue RateLimitingInterface \<times> WorkQueue" where
  "NewRateLimitingQueue rl = NewNamedRateLimitingQueue rl []"

subsection \<open>Construction\<close>

text \<open>
  Modelled from the spec: \<^verbatim>\<open>cache.DeletionHandlingMetaNamespaceKeyFunc\<close>, the initial
  value of the package variable \<^verbatim>\<open>KeyFunc\<close>, is not among the sources. The spec has
  it derive the key "from a namespaced identity (namespace + name)", as in its example
  \<^verbatim>\<open>"ns/foo"\<close>, and fail on an object that "cannot yield a key".
\<close>

datatype object = Object string string | Unkeyed

definition DeletionHandlingMetaNamespaceKeyFunc :: "object \<Rightarrow> err + string" where
  "DeletionHandlingMetaNamespaceKeyFunc obj =
     (case obj of
        Object namespace name \<Rightarrow> Inr (namespace @ ''/'' @ name)
      | Unkeyed \<Rightarrow> Inl ''object has no meta'')"

text \<open>
  The variables of the package: \<^verbatim>\<open>var KeyFunc\<close>, exported and assignable, so that a
  host overrides the key function by assigning to it.
\<close>

record 'obj package_vars =
  KeyFunc :: "'obj \<Rightarrow> err + string"

text \<open>
  The package as its initialisation leaves it:
  \<^verbatim>\<open>KeyFunc = cache.DeletionHandlingMetaNamespaceKeyFunc\<close>.
\<close>

definition package_init :: "object package_vars" where
  "package_init = \<lparr>KeyFunc = DeletionHandlingMetaNamespaceKeyFunc\<rparr>"

text \<open>
  \<^verbatim>\<open>func NewPeriodicTaskQueueWithLimiter(name, resource, syncFn, rl)\<close>. The function
  has no parameter for the key function: it reads the package variable \<^verbatim>\<open>KeyFunc\<close>,
  so the first argument is the state of the package's variables when the constructor
  runs; the last is the state of the callback's world at that moment. The result is the
  task queue and the state it starts in: \<^verbatim>\<open>make(chan struct{})\<close> is an open channel.
\<close>

definition NewPeriodicTaskQueueWithLimiter ::
  "'obj package_vars \<Rightarrow> string \<Rightarrow> string \<Rightarrow> (string \<Rightarrow> 'u \<Rightarrow> err option \<times> 'u)
     \<Rightarrow> RateLimiter \<Rightarrow> 'u
     \<Rightarrow> (WorkQueue, 'u, 'obj) PeriodicTaskQueue \<times> (WorkQueue, 'u, 'obj) world" where
  "NewPeriodicTaskQueueWithLimiter pkg name resource' syncFn rl u =
     (case (if name = [] then NewRateLimitingQueue rl else NewNamedRateLimitingQueue rl name) of
        (queue', q0) \<Rightarrow>
          (\<lparr>resource = resource', keyFunc = KeyFunc pkg, queue = queue', sync = syncFn\<rparr>,
           \<lparr>wq = q0, app = u, workerDone = False, klog = [], calls = []\<rparr>))"

subsection \<open>The goroutines around one task queue\<close>

text \<open>
  \<^verbatim>\<open>Run\<close> blocks "until the Shutdown() has been called", so the host runs it on a
  goroutine of its own, while other goroutines call \<^verbatim>\<open>Enqueue\<close> and one calls
  \<^verbatim>\<open>Shutdown\<close>. The goroutine of \<^verbatim>\<open>Run\<close> is not started yet, is about to call
  \<^verbatim>\<open>Get\<close>, is between the return of \<^verbatim>\<open>Get\<close> and the end of the loop body for a
  key (the call of \<^verbatim>\<open>sync\<close> is in progress), has returned, or has panicked.
\<close>

datatype worker_at = NotStarted | AtGet | InSync string | Exited | Crashed

text \<open>
  The caller of \<^verbatim>\<open>Shutdown\<close> has not called it, is blocked in the receive
  \<^verbatim>\<open><-t.workerDone\<close> after \<^verbatim>\<open>t.queue.ShutDown()\<close>, or has returned from it.
\<close>

datatype stopper_at = NotCalled | Receiving | ShutdownReturned

record ('q, 'u, 'obj) system =
  shared :: "('q, 'u, 'obj) world"
  worker :: worker_at
  stopper :: stopper_at

text \<open>
  What can happen next: the host starts \<^verbatim>\<open>Run\<close> (once: the spec has exactly one
  worker loop per queue), the worker takes its next step, some goroutine calls
  \<^verbatim>\<open>Enqueue\<close>, \<^verbatim>\<open>Shutdown\<close> is called, the receive in \<^verbatim>\<open>Shutdown\<close> completes,
  or the queue library acts on its own state (a timer of the rate limiter moves a key).
  The goroutines interleave at these actions: the queue serialises its operations, a
  close of the channel happens before the receive that it completes, and the loop body
  from the return of \<^verbatim>\<open>sync\<close> to \<^verbatim>\<open>Done\<close> is taken as one step.
\<close>

datatype ('q, 'obj) action =
  GoRun
| WorkerStep
| CallEnqueue "'obj list"
| CallShutdown
| ShutdownReceive
| QueueInternal "'q \<Rightarrow> 'q"

text \<open>
  One step of the worker: the statements of \<^verbatim>\<open>Run\<close> from the head of the loop to the
  return of \<^verbatim>\<open>Get\<close> (with the exit when \<^verbatim>\<open>quit\<close> is set), or the rest of the loop
  body. \<open>None\<close>: the worker cannot move (it is blocked in \<^verbatim>\<open>Get\<close>, or is not
  running).
\<close>

definition worker_step ::
  "('q, 'u, 'obj) PeriodicTaskQueue \<Rightarrow> ('q, 'u, 'obj) system \<Rightarrow> ('q, 'u, 'obj) system option" where
  "worker_step t \<sigma> =
     (case worker \<sigma> of
        AtGet \<Rightarrow>
          (case queue_Get t (shared \<sigma>) of
             None \<Rightarrow> None
           | Some ((key, quit), s1) \<Rightarrow>
               if quit then
                 (case close_workerDone s1 of
                    None \<Rightarrow> Some (\<sigma>\<lparr>shared := s1, worker := Crashed\<rparr>)
                  | Some s2 \<Rightarrow> Some (\<sigma>\<lparr>shared := s2, worker := Exited\<rparr>))
               else Some (\<sigma>\<lparr>shared := s1, worker := InSync key\<rparr>))
      | InSync key \<Rightarrow> Some (\<sigma>\<lparr>shared := Run_body t key (shared \<sigma>), worker := AtGet\<rparr>)
      | _ \<Rightarrow> None)"

definition step ::
  "('q, 'u, 'obj) PeriodicTaskQueue \<Rightarrow> ('q, 'obj) action \<Rightarrow> ('q, 'u, 'obj) system
     \<Rightarrow> ('q, 'u, 'obj) system option" where
  "step t a \<sigma> =
     (case a of
        GoRun \<Rightarrow> if worker \<sigma> = NotStarted then Some (\<sigma>\<lparr>worker := AtGet\<rparr>) else None
      | WorkerStep \<Rightarrow> worker_step t \<sigma>
      | CallEnqueue objs \<Rightarrow> Some (\<sigma>\<lparr>shared := Enqueue t objs (shared \<sigma>)\<rparr>)
      | CallShutdown \<Rightarrow>
          if stopper \<sigma> = Receiving then None
          else Some (\<sigma>\<lparr>shared := Shutdown_call t (shared \<sigma>), stopper := Receiving\<rparr>)
      | ShutdownReceive \<Rightarrow>
          if stopper \<sigma> = Receiving then
            (case Shutdown_receive (shared \<sigma>) of
               None \<Rightarrow> None
             | Some s1 \<Rightarrow> Some (\<sigma>\<lparr>shared := s1, stopper := ShutdownReturned\<rparr>))
          else None
      | QueueInternal f \<Rightarrow> Some (\<sigma>\<lparr>shared := (shared \<sigma>)\<lparr>wq := f (wq (shared \<sigma>))\<rparr>\<rparr>))"

text \<open>A schedule is a list of actions; \<open>None\<close> when one of them cannot happen.\<close>

fun exec ::
  "('q, 'u, 'obj) PeriodicTaskQueue \<Rightarrow> ('q, 'obj) action list \<Rightarrow> ('q, 'u, 'obj) system
     \<Rightarrow> ('q, 'u, 'obj) system option" where
  "exec t [] \<sigma> = Some \<sigma>"
| "exec t (a # as) \<sigma> = (case step t a \<sigma> of None \<Rightarrow> None | Some \<sigma>' \<Rightarrow> exec t as \<sigma>')"

text \<open>The system around a task queue just constructed.\<close>

definition start :: "('q, 'u, 'obj) world \<Rightarrow> ('q, 'u, 'obj) system" where
  "start s = \<lparr>shared = s, worker = NotStarted, stopper = NotCalled\<rparr>"

text \<open>The calls of \<^verbatim>\<open>sync\<close> among the recorded calls.\<close>

fun is_sync :: "call \<Rightarrow> bool" where
  "is_sync (CallSync key e) = True"
| "is_sync _ = False"

definition syncs :: "('q, 'u, 'obj) world \<Rightarrow> call list" where
  "syncs s = filter is_sync (calls s)"

text \<open>
  The shape of the record of calls of one execution of \<^verbatim>\<open>Run\<close>: whole passes of
  the loop body, each opened by a \<^verbatim>\<open>Get\<close> that returned a key, and at most one
  closing \<^verbatim>\<open>Get\<close> that reported \<^verbatim>\<open>quit\<close>.
\<close>

inductive worker_calls :: "call list \<Rightarrow> bool" where
  observed: "worker_calls []"
| closing: "worker_calls [CallGet key True]"
| exited: "worker_calls [CallGet key True, CloseWorkerDone]"
| failed: "worker_calls cs \<Longrightarrow>
     worker_calls
       (CallGet key False # CallSync key (Some e) # CallAddRateLimited key # CallDone key # cs)"
| succeeded: "worker_calls cs \<Longrightarrow>
     worker_calls (CallGet key False # CallSync key None # CallForget key # CallDone key # cs)"

subsection \<open>Notions used in the statements\<close>

text \<open>
  What a recorded call does to the state behind the queue and to the state of the
  callback: the method of the interface, or the callback, applied to it. With it the
  record of calls is tied to the state: a call that is recorded and not made, or made
  and not recorded, shows as a difference between the state and the replayed record.
\<close>

fun apply_call ::
  "('q, 'u, 'obj) PeriodicTaskQueue \<Rightarrow> call \<Rightarrow> 'q \<times> 'u \<Rightarrow> 'q \<times> 'u" where
  "apply_call t (CallAdd key) (q, u) = (Add (queue t) key q, u)"
| "apply_call t (CallGet key quit) (q, u) =
     (case Get (queue t) q of None \<Rightarrow> (q, u) | Some (r, q') \<Rightarrow> (q', u))"
| "apply_call t (CallSync key e) (q, u) = (q, snd (sync t key u))"
| "apply_call t (CallAddRateLimited key) (q, u) = (AddRateLimited (queue t) key q, u)"
| "apply_call t (CallForget key) (q, u) = (Forget (queue t) key q, u)"
| "apply_call t (CallDone key) (q, u) = (Done (queue t) key q, u)"
| "apply_call t CallShutDown (q, u) = (ShutDown (queue t) q, u)"
| "apply_call t CloseWorkerDone (q, u) = (q, u)"

definition replay ::
  "('q, 'u, 'obj) PeriodicTaskQueue \<Rightarrow> call list \<Rightarrow> 'q \<times> 'u \<Rightarrow> 'q \<times> 'u" where
  "replay t cs qu = foldl (\<lambda>qu c. apply_call t c qu) qu cs"

text \<open>The line \<^verbatim>\<open>Run\<close> writes to the error log for a recorded call.\<close>

fun requeue_log :: "('q, 'u, 'obj) PeriodicTaskQueue \<Rightarrow> call \<Rightarrow> 'obj log_entry list" where
  "requeue_log t (CallSync key (Some e)) = [Requeuing key e (resource t)]"
| "requeue_log t _ = []"

text \<open>
  The only actions of the modelled queue library on its own state are timers: a
  schedule of the system over that queue has no other internal action.
\<close>

fun timer_or_call :: "(WorkQueue, 'obj) action \<Rightarrow> bool" where
  "timer_or_call (QueueInternal f) = (\<exists>key. f = wq_elapsed key)"
| "timer_or_call _ = True"

text \<open>
  The number of failed calls of \<^verbatim>\<open>sync\<close> for a key since its last successful one,
  read off the record of calls.
\<close>

fun tally :: "string \<Rightarrow> nat \<Rightarrow> call \<Rightarrow> nat" where
  "tally key n (CallSync k e) =
     (if k = key then (case e of None \<Rightarrow> 0 | Some _ \<Rightarrow> Suc n) else n)"
| "tally key n _ = n"

definition streak :: "string \<Rightarrow> call list \<Rightarrow> nat" where
  "streak key cs = foldl (tally key) 0 cs"

text \<open>The state of the rate limiter is, for every key, that number.\<close>

definition limiter_counts_streak :: "(WorkQueue, 'u, 'obj) world \<Rightarrow> bool" where
  "limiter_counts_streak s = (RateLimiterState (wq s) = (\<lambda>key. streak key (calls s)))"

text \<open>
  The handshake of \<^verbatim>\<open>Shutdown\<close> and \<^verbatim>\<open>Run\<close>: the channel is closed exactly when
  the worker has returned, \<^verbatim>\<open>Shutdown\<close> has returned only if the worker has, a
  \<^verbatim>\<open>Shutdown\<close> under way has called \<^verbatim>\<open>ShutDown\<close>, and a worker that returned has
  seen \<^verbatim>\<open>Get\<close> report \<^verbatim>\<open>quit\<close>.
\<close>

definition handshake :: "('q, 'u, 'obj) system \<Rightarrow> bool" where
  "handshake \<sigma> =
     ((workerDone (shared \<sigma>) \<longleftrightarrow> worker \<sigma> = Exited) \<and>
      (stopper \<sigma> = ShutdownReturned \<longrightarrow> worker \<sigma> = Exited) \<and>
      (stopper \<sigma> \<noteq> NotCalled \<longrightarrow> CallShutDown \<in> set (calls (shared \<sigma>))) \<and>
      (worker \<sigma> = Exited \<longrightarrow> (\<exists>key. CallGet key True \<in> set (calls (shared \<sigma>)))))"

text \<open>
  Where the goroutine of \<^verbatim>\<open>Run\<close> stands when an observed execution of \<^verbatim>\<open>Run\<close>
  stands at an outcome: a loop that is blocked in \<^verbatim>\<open>Get\<close>, or observed no further,
  is about to call (or is inside) \<^verbatim>\<open>Get\<close>.
\<close>

fun worker_of :: "outcome \<Rightarrow> worker_at" where
  "worker_of Returned = Exited"
| "worker_of Panicked = Crashed"
| "worker_of WaitingInGet = AtGet"
| "worker_of StillRunning = AtGet"

text \<open>
  The exit of the worker as it shows in the calls made since the state \<open>s0\<close>: the worker
  has not panicked, and a \<^verbatim>\<open>Get\<close> has reported \<^verbatim>\<open>quit\<close>, and the channel has been
  closed, exactly when the worker has returned.
\<close>

definition exit_recorded :: "('q, 'u, 'obj) world \<Rightarrow> ('q, 'u, 'obj) system \<Rightarrow> bool" where
  "exit_recorded s0 \<sigma> =
     (worker \<sigma> \<noteq> Crashed \<and>
      (\<exists>new. calls (shared \<sigma>) = calls s0 @ new \<and>
         ((\<exists>key. CallGet key True \<in> set new) \<longleftrightarrow> worker \<sigma> = Exited) \<and>
         (CloseWorkerDone \<in> set new \<longleftrightarrow> worker \<sigma> = Exited)))"

subsection \<open>A queue to run the definitions on\<close>

text \<open>
  The scenario of the spec: a callback that fails on its first call and succeeds from
  then on (its state counts the calls made), an exponential backoff with a cap, and a
  queue constructed over them in the package as initialised, so with the default key
  function.
\<close>

definition example_sync :: "string \<Rightarrow> nat \<Rightarrow> err option \<times> nat" where
  "example_sync key n = (if n = 0 then (Some ''not ready'', Suc n) else (None, Suc n))"

definition example_limiter :: RateLimiter where
  "example_limiter n = min (5 * 2 ^ n) 1000"

definition example_queue ::
  "(WorkQueue, nat, object) PeriodicTaskQueue \<times> (WorkQueue, nat, object) world" where
  "example_queue =
     NewPeriodicTaskQueueWithLimiter package_init ''ingress''
       ''ingresses'' example_sync example_limiter 0"

text \<open>
  A key function a host may assign to \<^verbatim>\<open>KeyFunc\<close>: objects of a resource without
  namespaces go by the name alone.
\<close>

definition cluster_KeyFunc :: "object \<Rightarrow> err + string" where
  "cluster_KeyFunc obj = (case obj of Object ns nm \<Rightarrow> Inr nm | Unkeyed \<Rightarrow> Inr ''cluster'')"

text \<open>A callback that succeeds on every other call, starting with a success.\<close>

definition alternating_sync :: "string \<Rightarrow> nat \<Rightarrow> err option \<times> nat" where
  "alternating_sync key n = (if even n then (None, Suc n) else (Some ''busy'', Suc n))"

section \<open>The model of services of pkg/composite/meta/meta.go\<close>

subsection \<open>Strings, JSON values, library functions\<close>

text \<open>
  \<^verbatim>\<open>createVarName\<close> works on the runes of a string, so strings of this package
  are sequences of runes (\<^verbatim>\<open>int32\<close> code points); every string here is a literal or
  comes out of the JSON decoder, so it is valid UTF-8, where the order \<^verbatim>\<open><\<close> on the
  bytes is the lexicographic order on the runes. \<open>str\<close> writes a literal.
\<close>

type_synonym rune = "32 word"
type_synonym gostring = "rune list"

definition str :: "string \<Rightarrow> gostring" where
  "str s = map of_char s"

text \<open>
  What \<^verbatim>\<open>json.Unmarshal\<close> stores in an \<^verbatim>\<open>interface{}\<close>: \<^verbatim>\<open>nil\<close>, a \<^verbatim>\<open>bool\<close>, a
  number (of a type \<open>'n\<close> the code never looks into), a \<^verbatim>\<open>string\<close>, a slice or a
  \<^verbatim>\<open>map[string]interface{}\<close>. A map is the list of its entries, keys distinct, in the
  order in which a \<^verbatim>\<open>range\<close> loop visits them; the Go runtime fixes that order anew
  for every loop, so every order of the entries stands for the same map.
\<close>

datatype 'n json =
  JNull
| JBool bool
| JNumber 'n
| JString gostring
| JArray "'n json list"
| JObject "(gostring \<times> 'n json) list"

text \<open>The index expression \<^verbatim>\<open>m[key]\<close>, which is \<^verbatim>\<open>nil\<close> for a missing key.\<close>

definition index :: "(gostring \<times> 'n json) list \<Rightarrow> gostring \<Rightarrow> 'n json" where
  "index m key = (case map_of m key of None \<Rightarrow> JNull | Some v \<Rightarrow> v)"

text \<open>\<^verbatim>\<open>type ApiService struct\<close>; the struct is recursive through \<^verbatim>\<open>Fields\<close>.\<close>

datatype ApiService =
  ApiService (Name: gostring) (JsonName: gostring) (JsonStringOverride: bool) (GoType: gostring)
    (VarName: gostring) (Fields: "ApiService list")

text \<open>
  The panics of the package: the explicit ones, the failed type assertions of the
  runtime, and the error of \<^verbatim>\<open>getGoType\<close>, which \<^verbatim>\<open>populateApiServices\<close> panics with.
\<close>

datatype panic =
  OpenFailed
| ReadFailed
| TypeAssertionFailed
| UnableToParseType gostring
| UnableToGetPropertyType
| NilPanic
| NotPresentInMap gostring

text \<open>
  The functions of Go's standard library the package calls: \<^verbatim>\<open>unicode.ToLower\<close>,
  \<^verbatim>\<open>strings.Title\<close> and \<^verbatim>\<open>sort.Slice\<close> (on a slice of \<^verbatim>\<open>ApiService\<close>, with the
  \<^verbatim>\<open>less\<close> function as its first argument here). They are parameters of the model.
\<close>

record golib =
  ToLower :: "rune \<Rightarrow> rune"
  Title :: "gostring \<Rightarrow> gostring"
  sort_Slice :: "(ApiService \<Rightarrow> ApiService \<Rightarrow> bool) \<Rightarrow> ApiService list \<Rightarrow> ApiService list"

subsection \<open>Main services\<close>

text \<open>
  \<^verbatim>\<open>var MainServices = map[string]string{...}\<close>. The functions that read the variable
  take its value as their first argument.
\<close>

definition MainServices :: "(gostring \<times> gostring) list" where
  "MainServices = [(str ''BackendService'', str ''BackendServices'')]"

definition IsMainService :: "(gostring \<times> gostring) list \<Rightarrow> ApiService \<Rightarrow> bool" where
  "IsMainService ms apiService = (case map_of ms (Name apiService) of None \<Rightarrow> False | Some _ \<Rightarrow> True)"

definition GetCloudProviderName ::
  "(gostring \<times> gostring) list \<Rightarrow> ApiService \<Rightarrow> panic + gostring" where
  "GetCloudProviderName ms apiService =
     (case map_of ms (Name apiService) of
        None \<Rightarrow> Inl (NotPresentInMap (Name apiService))
      | Some result \<Rightarrow> Inr result)"

subsection \<open>createVarName\<close>

text \<open>
  \<^verbatim>\<open>func createVarName(str string) string\<close>. The argument is the sequence of runes
  that \<^verbatim>\<open>[]rune(str)\<close> yields and the result the sequence that \<^verbatim>\<open>string(copy)\<close>
  encodes.
\<close>

definition createVarName :: "golib \<Rightarrow> gostring \<Rightarrow> gostring" where
  "createVarName lib s =
     (let copy = s in
      if length copy = 0 then copy
      else copy[0 := ToLower lib (copy ! 0)])"

subsection \<open>getGoType\<close>

lemma size_map_of [termination_simp]:
  "map_of field key = Some v \<Longrightarrow> size v < Suc (size_list (\<lambda>x. Suc (size (snd x))) field)"
proof -
  assume "map_of field key = Some v"
  then have "(key, v) \<in> set field" by (rule map_of_SomeD)
  then have "(\<lambda>x. Suc (size (snd x))) (key, v) \<le> size_list (\<lambda>x. Suc (size (snd x))) field"
    by (rule size_list_estimation') simp
  then show ?thesis by simp
qed

text \<open>
  The end of \<^verbatim>\<open>getGoType\<close>: the check that sets \<^verbatim>\<open>override\<close>, and the return.
\<close>

definition finish ::
  "(gostring \<times> 'n json) list \<Rightarrow> gostring \<Rightarrow> gostring list \<Rightarrow> bool \<Rightarrow> panic option
     \<Rightarrow> panic + (gostring \<times> gostring list \<times> bool \<times> panic option)" where
  "finish field propType typesQueue override err =
     Inr (propType, typesQueue,
          (if index field (str ''type'') = JString (str ''string'') \<and> propType \<noteq> str ''string''
           then True else override),
          err)"

text \<open>
  \<^verbatim>\<open>func getGoType(val interface{}, typesQueue []string)\<close>. The branches are those of
  the source, in its order. Where the source calls itself on \<^verbatim>\<open>field["items"]\<close> and
  the key is missing, the argument is \<^verbatim>\<open>nil\<close> and the call panics at once with
  \<^verbatim>\<open>panic(nil)\<close>; the assertions \<^verbatim>\<open>.(string)\<close> panic on anything but a string.
\<close>

fun getGoType ::
  "'n json \<Rightarrow> gostring list \<Rightarrow> panic + (gostring \<times> gostring list \<times> bool \<times> panic option)" where
  "getGoType (JObject field) typesQueue =
     (case map_of field (str ''$ref'') of
        Some ref \<Rightarrow>
          (case ref of
             JString refName \<Rightarrow>
               finish field (str ''*'' @ refName) (typesQueue @ [refName]) False None
           | _ \<Rightarrow> Inl TypeAssertionFailed)
      | None \<Rightarrow>
          if index field (str ''type'') = JString (str ''array'') then
            (case map_of field (str ''items'') of
               None \<Rightarrow> Inl NilPanic
             | Some items \<Rightarrow>
                 (case getGoType items typesQueue of
                    Inl p \<Rightarrow> Inl p
                  | Inr (tmpType, typesQueue', override, err) \<Rightarrow>
                      finish field (str ''[]'' @ tmpType) typesQueue' override err))
          else if index field (str ''type'') = JString (str ''object'') then
            (case map_of field (str ''additionalProperties'') of
               Some addlProps \<Rightarrow>
                 (case getGoType addlProps typesQueue of
                    Inl p \<Rightarrow> Inl p
                  | Inr (tmpType, typesQueue', override, err) \<Rightarrow>
                      finish field (str ''map[string]'' @ tmpType) typesQueue' override err)
             | None \<Rightarrow> finish field (str ''map[string]string'') typesQueue False None)
          else
            (case map_of field (str ''format'') of
               Some format \<Rightarrow>
                 (case format of
                    JString f \<Rightarrow>
                      finish field
                        (if f = str ''byte'' then str ''string''
                         else if f = str ''float'' then str ''float64''
                         else if f = str ''int32'' then str ''int64''
                         else f)
                        typesQueue False None
                  | _ \<Rightarrow> Inl TypeAssertionFailed)
             | None \<Rightarrow>
                 if index field (str ''type'') \<noteq> JString (str '''') then
                   (case index field (str ''type'') of
                      JString ty \<Rightarrow>
                        finish field (if ty = str ''boolean'' then str ''bool'' else ty)
                          typesQueue False None
                    | _ \<Rightarrow> Inl TypeAssertionFailed)
                 else finish field (str '''') typesQueue False (Some UnableToGetPropertyType)))"
| "getGoType _ typesQueue = Inl NilPanic"


subsection \<open>populateApiServices\<close>

text \<open>
  The loop \<^verbatim>\<open>for prop, val := range fields\<close>, which appends one field per property
  to \<^verbatim>\<open>apiService.Fields\<close> and threads \<^verbatim>\<open>typesQueue\<close> through \<^verbatim>\<open>getGoType\<close>.
\<close>

fun range_fields ::
  "golib \<Rightarrow> (gostring \<times> 'n json) list \<Rightarrow> gostring list \<Rightarrow> ApiService list
     \<Rightarrow> panic + (ApiService list \<times> gostring list)" where
  "range_fields lib [] typesQueue subTypes = Inr (subTypes, typesQueue)"
| "range_fields lib ((prop, val) # rest) typesQueue subTypes =
     (case getGoType val typesQueue of
        Inl p \<Rightarrow> Inl p
      | Inr (propType, typesQueue', override, err) \<Rightarrow>
          (case err of
             Some e \<Rightarrow> Inl e
           | None \<Rightarrow>
               range_fields lib rest typesQueue'
                 (subTypes @ [ApiService (Title lib prop) prop override propType [] []])))"

text \<open>
  The expression
  \<^verbatim>\<open>result["schemas"].(map...)[typeName].(map...)["properties"].(map...)\<close>: the first two
  assertions panic in the runtime, the last one is checked and leads to the panic
  "Unable to parse type".
\<close>

definition properties_of ::
  "(gostring \<times> 'n json) list \<Rightarrow> gostring \<Rightarrow> panic + (gostring \<times> 'n json) list" where
  "properties_of result typeName =
     (case index result (str ''schemas'') of
        JObject schemas \<Rightarrow>
          (case index schemas typeName of
             JObject schema \<Rightarrow>
               (case index schema (str ''properties'') of
                  JObject flds \<Rightarrow> Inr flds
                | _ \<Rightarrow> Inl (UnableToParseType typeName))
           | _ \<Rightarrow> Inl TypeAssertionFailed)
      | _ \<Rightarrow> Inl TypeAssertionFailed)"

text \<open>The names under \<^verbatim>\<open>"schemas"\<close>, which bound the loop below.\<close>

definition schema_names :: "(gostring \<times> 'n json) list \<Rightarrow> gostring set" where
  "schema_names result =
     (case index result (str ''schemas'') of
        JObject schemas \<Rightarrow> fst ` set schemas
      | _ \<Rightarrow> {})"

lemma properties_of_schema_names:
  "properties_of result typeName = Inr flds \<Longrightarrow> typeName \<in> schema_names result"
  by (auto simp: properties_of_def schema_names_def index_def
      split: json.splits option.splits dest!: map_of_SomeD intro: rev_image_eqI)

lemma finite_schema_names: "finite (schema_names result)"
  by (simp add: schema_names_def split: json.splits)

text \<open>The \<^verbatim>\<open>less\<close> function of both calls of \<^verbatim>\<open>sort.Slice\<close>.\<close>

definition by_Name :: "ApiService \<Rightarrow> ApiService \<Rightarrow> bool" where
  "by_Name a b = (Name a < Name b)"

text \<open>
  The loop \<^verbatim>\<open>for len(typesQueue) > 0\<close> with its state: the queue, the set
  \<^verbatim>\<open>completed\<close> and \<^verbatim>\<open>AllApiServices\<close>. It terminates because every pass either
  shortens the queue or completes one more of the names under \<^verbatim>\<open>"schemas"\<close>.
\<close>

function populate_loop ::
  "golib \<Rightarrow> (gostring \<times> 'n json) list \<Rightarrow> gostring list \<Rightarrow> gostring set \<Rightarrow> ApiService list
     \<Rightarrow> panic + ApiService list" where
  "populate_loop lib result [] completed all = Inr all"
| "populate_loop lib result (typeName # typesQueue) completed all =
     (if typeName \<in> completed then populate_loop lib result typesQueue completed all
      else
        (case properties_of result typeName of
           Inl p \<Rightarrow> Inl p
         | Inr flds \<Rightarrow>
             (case range_fields lib flds typesQueue [] of
                Inl p \<Rightarrow> Inl p
              | Inr (subTypes, typesQueue') \<Rightarrow>
                  populate_loop lib result typesQueue' (insert typeName completed)
                    (all @ [ApiService typeName [] False [] (createVarName lib typeName)
                              (sort_Slice lib by_Name subTypes)]))))"
  by pat_completeness auto
termination
proof (relation "measures [\<lambda>(lib, result, typesQueue, completed, all).
                              card (schema_names result - completed),
                           \<lambda>(lib, result, typesQueue, completed, all). length typesQueue]",
       goal_cases)
  case 1
  show ?case by simp
next
  case (2 lib result typeName typesQueue completed all)
  then show ?case by simp
next
  case (3 lib result typeName typesQueue completed all flds x y typesQueue')
  from 3(2) have "typeName \<in> schema_names result" by (rule properties_of_schema_names)
  with 3(1) have "card (schema_names result - insert typeName completed)
      < card (schema_names result - completed)"
    by (intro psubset_card_mono) (auto simp: finite_schema_names)
  then show ?case by simp
qed

text \<open>
  What opening, reading and decoding the file at \<^verbatim>\<open>apiFilePath\<close> gives: a failure to
  open, a failure to read, or the decoded map (\<^verbatim>\<open>nil\<close>, the empty map, when decoding
  fails: the error of \<^verbatim>\<open>json.Unmarshal\<close> is dropped).
\<close>

datatype 'n api_file = OpenFails | ReadFails | Decoded "(gostring \<times> 'n json) list"

text \<open>
  \<^verbatim>\<open>func populateApiServices()\<close>. Its arguments are the library, the value of
  \<^verbatim>\<open>MainServices\<close> (in the order the \<^verbatim>\<open>range\<close> loop over it visits the keys), the
  file and the value of \<^verbatim>\<open>AllApiServices\<close> before; its result is a panic or the value
  of \<^verbatim>\<open>AllApiServices\<close> after.
\<close>

definition populateApiServices ::
  "golib \<Rightarrow> (gostring \<times> gostring) list \<Rightarrow> 'n api_file \<Rightarrow> ApiService list
     \<Rightarrow> panic + ApiService list" where
  "populateApiServices lib ms apiFile AllApiServices =
     (case apiFile of
        OpenFails \<Rightarrow> Inl OpenFailed
      | ReadFails \<Rightarrow> Inl ReadFailed
      | Decoded result \<Rightarrow>
          (case populate_loop lib result ([] @ map fst ms) {} AllApiServices of
             Inl p \<Rightarrow> Inl p
           | Inr all \<Rightarrow> Inr (sort_Slice lib by_Name all)))"

text \<open>\<^verbatim>\<open>func init()\<close>.\<close>

definition init :: "golib \<Rightarrow> (gostring \<times> gostring) list \<Rightarrow> 'n api_file \<Rightarrow> panic + ApiService list" where
  "init lib ms apiFile = populateApiServices lib ms apiFile []"

subsection \<open>A library to run the definitions on\<close>

text \<open>
  Insertion sort as \<^verbatim>\<open>sort.Slice\<close> runs it on a short slice: each element moves
  towards the front past the elements it is less than (the list is the sorted prefix,
  last element first).
\<close>

fun insert_back :: "('a \<Rightarrow> 'a \<Rightarrow> bool) \<Rightarrow> 'a \<Rightarrow> 'a list \<Rightarrow> 'a list" where
  "insert_back lessFn x [] = [x]"
| "insert_back lessFn x (y # ys) = (if lessFn x y then y # insert_back lessFn x ys else x # y # ys)"

definition insertion_sort :: "('a \<Rightarrow> 'a \<Rightarrow> bool) \<Rightarrow> 'a list \<Rightarrow> 'a list" where
  "insertion_sort lessFn xs = rev (foldl (\<lambda>sorted x. insert_back lessFn x sorted) [] xs)"

text \<open>
  A library that lowers and raises the ASCII letters and sorts by insertion.
\<close>

definition example_lib :: golib where
  "example_lib =
     \<lparr>ToLower = (\<lambda>r. if 0x41 \<le> r \<and> r \<le> 0x5A then r + 0x20 else r),
      Title = (\<lambda>s. case s of [] \<Rightarrow> [] | r # rs \<Rightarrow> (if 0x61 \<le> r \<and> r \<le> 0x7A then r - 0x20 else r) # rs),
      sort_Slice = insertion_sort\<rparr>"

subsection \<open>Notions used in the statements about populateApiServices\<close>

text \<open>A list of services is in non-decreasing order of \<^verbatim>\<open>Name\<close>.\<close>

definition sorted_by_Name :: "ApiService list \<Rightarrow> bool" where
  "sorted_by_Name xs = sorted_wrt (\<lambda>a b. Name a \<le> Name b) xs"

text \<open>
  What is assumed of \<^verbatim>\<open>sort.Slice\<close> with the \<^verbatim>\<open>less\<close> function of this package:
  it permutes the slice and leaves it in non-decreasing order of \<^verbatim>\<open>Name\<close>. It need
  not be stable.
\<close>

definition sort_Slice_contract :: "golib \<Rightarrow> bool" where
  "sort_Slice_contract lib =
     (\<forall>xs. mset (sort_Slice lib by_Name xs) = mset xs \<and> sorted_by_Name (sort_Slice lib by_Name xs))"

text \<open>
  Two decoded documents hold the same maps where the code iterates: under every type
  name the lookup of the properties fails alike, or gives the same entries in some
  order.
\<close>

definition same_schemas ::
  "(gostring \<times> 'n json) list \<Rightarrow> (gostring \<times> 'n json) list \<Rightarrow> bool" where
  "same_schemas result result' =
     (\<forall>typeName. rel_sum (=) (\<lambda>flds flds'. mset flds = mset flds')
        (properties_of result typeName) (properties_of result' typeName))"

text \<open>In no schema do two properties get the same \<^verbatim>\<open>Name\<close> from \<^verbatim>\<open>strings.Title\<close>.\<close>

definition titles_distinct :: "golib \<Rightarrow> (gostring \<times> 'n json) list \<Rightarrow> bool" where
  "titles_distinct lib result =
     (\<forall>typeName flds. properties_of result typeName = Inr flds \<longrightarrow>
        distinct (map (\<lambda>(prop, val). Title lib prop) flds))"

text \<open>
  The field and the references one property contributes, when \<^verbatim>\<open>getGoType\<close> neither
  panics nor returns an error on it.
\<close>

definition field_of :: "golib \<Rightarrow> gostring \<times> 'n json \<Rightarrow> (ApiService \<times> gostring list) option" where
  "field_of lib e =
     (case getGoType (snd e) [] of
        Inr (propType, refs, override, None) \<Rightarrow>
          Some (ApiService (Title lib (fst e)) (fst e) override propType [] [], refs)
      | _ \<Rightarrow> None)"

text \<open>
  The service built for a type name and the names its properties refer to, when the
  pass of the loop for that name does not panic.
\<close>

definition node ::
  "golib \<Rightarrow> (gostring \<times> 'n json) list \<Rightarrow> gostring \<Rightarrow> (ApiService \<times> gostring list) option" where
  "node lib result typeName =
     (case properties_of result typeName of
        Inl p \<Rightarrow> None
      | Inr flds \<Rightarrow>
          (case range_fields lib flds [] [] of
             Inl p \<Rightarrow> None
           | Inr (subTypes, refs) \<Rightarrow>
               Some (ApiService typeName [] False [] (createVarName lib typeName)
                       (sort_Slice lib by_Name subTypes), refs)))"

text \<open>The type names the loop can come to from the names it starts with.\<close>

inductive reach ::
  "(gostring \<Rightarrow> (ApiService \<times> gostring list) option) \<Rightarrow> gostring set \<Rightarrow> gostring \<Rightarrow> bool"
  for nd :: "gostring \<Rightarrow> (ApiService \<times> gostring list) option" and roots :: "gostring set" where
  root: "t \<in> roots \<Longrightarrow> reach nd roots t"
| ref: "reach nd roots t \<Longrightarrow> nd t = Some (s, refs) \<Longrightarrow> u \<in> set refs \<Longrightarrow> reach nd roots u"

text \<open>
  The invariant of the loop: everything queued or completed can be reached, the roots
  and the references of every completed name are queued or completed, and
  \<^verbatim>\<open>AllApiServices\<close> holds exactly the services of the completed names, once each.
\<close>

definition loop_inv ::
  "(gostring \<Rightarrow> (ApiService \<times> gostring list) option) \<Rightarrow> gostring set \<Rightarrow> gostring list
     \<Rightarrow> gostring set \<Rightarrow> ApiService list \<Rightarrow> bool" where
  "loop_inv nd roots q completed all =
     ((\<forall>t\<in>set q \<union> completed. reach nd roots t) \<and>
      roots \<subseteq> completed \<union> set q \<and>
      (\<forall>t\<in>completed. \<forall>s refs. nd t = Some (s, refs) \<longrightarrow> set refs \<subseteq> completed \<union> set q) \<and>
      set (map Name all) = completed \<and> distinct (map Name all) \<and>
      (\<forall>s\<in>set all. \<exists>refs. nd (Name s) = Some (s, refs)))"

text \<open>A list holds exactly the services of the reachable names, once each.\<close>

definition enumerates ::
  "(gostring \<Rightarrow> (ApiService \<times> gostring list) option) \<Rightarrow> gostring set \<Rightarrow> ApiService list \<Rightarrow> bool" where
  "enumerates nd roots out =
     (set (map Name out) = {t. reach nd roots t} \<and> distinct (map Name out) \<and>
      (\<forall>s\<in>set out. \<exists>refs. nd (Name s) = Some (s, refs)))"

subsection \<open>Documents to run the definitions on\<close>

text \<open>
  Two schemas, one referring to the other, written twice with the properties in
  different orders; and a schema whose two properties \<^verbatim>\<open>port\<close> and \<^verbatim>\<open>Port\<close> get the
  same \<^verbatim>\<open>Name\<close>.
\<close>

definition example_schemas :: "(gostring \<times> nat json) list" where
  "example_schemas =
     [(str ''schemas'', JObject
        [(str ''Backend'', JObject [(str ''properties'', JObject
            [(str ''group'', JObject [(str ''type'', JString (str ''string''))]),
             (str ''balancingMode'', JObject [(str ''type'', JString (str ''string''))])])]),
         (str ''BackendService'', JObject [(str ''properties'', JObject
            [(str ''timeoutSec'', JObject [(str ''type'', JString (str ''integer'')),
                                          (str ''format'', JString (str ''int32''))]),
             (str ''backends'', JObject [(str ''type'', JString (str ''array'')),
                                        (str ''items'', JObject [(str ''$ref'', JString (str ''Backend''))])]),
             (str ''id'', JObject [(str ''type'', JString (str ''string'')),
                                  (str ''format'', JString (str ''uint64''))])])])])]"

definition example_schemas_reordered :: "(gostring \<times> nat json) list" where
  "example_schemas_reordered =
     [(str ''schemas'', JObject
        [(str ''Backend'', JObject [(str ''properties'', JObject
            [(str ''balancingMode'', JObject [(str ''type'', JString (str ''string''))]),
             (str ''group'', JObject [(str ''type'', JString (str ''string''))])])]),
         (str ''BackendService'', JObject [(str ''properties'', JObject
            [(str ''id'', JObject [(str ''type'', JString (str ''string'')),
                                  (str ''format'', JString (str ''uint64''))]),
             (str ''timeoutSec'', JObject [(str ''type'', JString (str ''integer'')),
                                          (str ''format'', JString (str ''int32''))]),
             (str ''backends'', JObject [(str ''type'', JString (str ''array'')),
                                        (str ''items'', JObject [(str ''$ref'', JString (str ''Backend''))])])])])])]"

definition colliding_schemas :: "(gostring \<times> nat json) list \<Rightarrow> (gostring \<times> nat json) list" where
  "colliding_schemas props =
     [(str ''schemas'', JObject
        [(str ''BackendService'', JObject [(str ''properties'', JObject props)])])]"

definition port_lower :: "gostring \<times> nat json" where
  "port_lower = (str ''port'', JObject [(str ''type'', JString (str ''integer''))])"

definition port_upper :: "gostring \<times> nat json" where
  "port_upper = (str ''Port'', JObject [(str ''type'', JString (str ''string''))])"

section \<open>Properties of the task queue\<close>

lemmas example_defs =
  example_queue_def example_sync_def example_limiter_def NewPeriodicTaskQueueWithLimiter_def
  NewRateLimitingQueue_def NewNamedRateLimitingQueue_def rateLimitingQueue_def
  DeletionHandlingMetaNamespaceKeyFunc_def package_init_def

lemmas queue_defs =
  queue_Add_def queue_AddRateLimited_def queue_Forget_def queue_Done_def queue_ShutDown_def
  queue_Get_def call_sync_def close_workerDone_def Run_body_def

lemmas wq_defs =
  wq_Add_def wq_AddRateLimited_def wq_Forget_def wq_Done_def wq_Get_def wq_ShutDown_def

lemmas step_defs = step_def worker_step_def Shutdown_call_def Shutdown_receive_def start_def

subsection \<open>Enqueue\<close>

text \<open>
  C1. The claim: when key extraction fails for one object of a call
  \<^verbatim>\<open>Enqueue(objs...)\<close>, that object is reported and skipped and every remaining object
  of the call is still keyed and added. The code returns from \<^verbatim>\<open>Enqueue\<close> at the
  first failure instead: with an object without a key in front of the object
  \<^verbatim>\<open>ns/foo\<close>, the failure is logged, \<^verbatim>\<open>Add\<close> is never called and nothing is
  pending; in the other order \<^verbatim>\<open>ns/foo\<close> is added.
\<close>

theorem Enqueue_returns_at_first_extraction_failure:
  "PendingSet (wq (Enqueue (fst example_queue) [Unkeyed, Object ''ns'' ''foo'']
      (snd example_queue))) = []
   \<and> calls (Enqueue (fst example_queue) [Unkeyed, Object ''ns'' ''foo''] (snd example_queue)) = []
   \<and> klog (Enqueue (fst example_queue) [Unkeyed, Object ''ns'' ''foo''] (snd example_queue))
       = [CouldntGetKey Unkeyed ''object has no meta'']
   \<and> PendingSet (wq (Enqueue (fst example_queue) [Object ''ns'' ''foo'', Unkeyed]
        (snd example_queue))) = [''ns/foo'']"
  by (simp add: example_defs queue_defs wq_defs)

lemma Enqueue_until_failure:
  "Enqueue t objs s =
     s\<lparr>wq := foldl (\<lambda>q key. Add (queue t) key q) (wq s)
              (map (projr \<circ> keyFunc t) (takeWhile (\<lambda>obj. \<not> isl (keyFunc t obj)) objs)),
       klog := klog s @
              (case dropWhile (\<lambda>obj. \<not> isl (keyFunc t obj)) objs of
                 [] \<Rightarrow> []
               | bad # _ \<Rightarrow> [CouldntGetKey bad (projl (keyFunc t bad))]),
       calls := calls s @
              map (CallAdd \<circ> projr \<circ> keyFunc t)
                (takeWhile (\<lambda>obj. \<not> isl (keyFunc t obj)) objs)\<rparr>"
proof (induction objs arbitrary: s)
  case Nil
  show ?case by simp
next
  case (Cons obj objs)
  show ?case
  proof (cases "keyFunc t obj")
    case (Inl e)
    then show ?thesis by simp
  next
    case (Inr key)
    then show ?thesis by (simp add: Cons.IH queue_Add_def)
  qed
qed

lemma made_fields:
  "keyFunc (fst (NewPeriodicTaskQueueWithLimiter pkg name resource' syncFn rl u)) = KeyFunc pkg"
  "queue (fst (NewPeriodicTaskQueueWithLimiter pkg name resource' syncFn rl u))
     = rateLimitingQueue rl"
  by (simp_all add: NewPeriodicTaskQueueWithLimiter_def NewRateLimitingQueue_def
      NewNamedRateLimitingQueue_def)

text \<open>
  C7. The constructor has no parameter for the key function; it stores the value the
  package variable \<^verbatim>\<open>KeyFunc\<close> holds when it runs. In the package as initialised
  that is the default, \<^verbatim>\<open>cache.DeletionHandlingMetaNamespaceKeyFunc\<close> (as modelled
  from the spec, it makes the key of namespace and name); after an assignment of another
  function to the variable it is that function, whatever the default. \<^verbatim>\<open>Enqueue\<close>
  on the constructed queue keys its objects with the stored function and with nothing
  else: it hands the keys of the objects up to the first one without a key to
  \<^verbatim>\<open>Add\<close>, in order, logs the failure of that one if there is one, and does
  nothing more; when every object has a key, every object is keyed and added.
\<close>

theorem Enqueue_uses_keyFunc_of_construction:
  "keyFunc (fst (NewPeriodicTaskQueueWithLimiter pkg name resource' syncFn rl u)) = KeyFunc pkg
   \<and> keyFunc (fst (NewPeriodicTaskQueueWithLimiter package_init name resource' syncFn rl u))
       = DeletionHandlingMetaNamespaceKeyFunc
   \<and> keyFunc (fst (NewPeriodicTaskQueueWithLimiter package_init name resource' syncFn rl u))
         (Object ns nm) = Inr (ns @ ''/'' @ nm)
   \<and> keyFunc (fst (NewPeriodicTaskQueueWithLimiter (pkg\<lparr>KeyFunc := f\<rparr>) name resource' syncFn
         rl u)) = f
   \<and> Enqueue (fst (NewPeriodicTaskQueueWithLimiter pkg name resource' syncFn rl u)) objs s =
       s\<lparr>wq := foldl (\<lambda>q key. wq_Add key q) (wq s)
                (map (projr \<circ> KeyFunc pkg) (takeWhile (\<lambda>obj. \<not> isl (KeyFunc pkg obj)) objs)),
         klog := klog s @
                (case dropWhile (\<lambda>obj. \<not> isl (KeyFunc pkg obj)) objs of
                   [] \<Rightarrow> []
                 | bad # _ \<Rightarrow> [CouldntGetKey bad (projl (KeyFunc pkg bad))]),
         calls := calls s @
                map (CallAdd \<circ> projr \<circ> KeyFunc pkg)
                  (takeWhile (\<lambda>obj. \<not> isl (KeyFunc pkg obj)) objs)\<rparr>
   \<and> (list_all (\<lambda>obj. \<not> isl (KeyFunc pkg obj)) objs \<longrightarrow>
        calls (Enqueue (fst (NewPeriodicTaskQueueWithLimiter pkg name resource' syncFn rl u))
                 objs s)
          = calls s @ map (CallAdd \<circ> projr \<circ> KeyFunc pkg) objs
        \<and> klog (Enqueue (fst (NewPeriodicTaskQueueWithLimiter pkg name resource' syncFn rl u))
                 objs s) = klog s)"
proof -
  let ?t = "fst (NewPeriodicTaskQueueWithLimiter pkg name resource' syncFn rl u)"
  have all: "list_all (\<lambda>obj. \<not> isl (KeyFunc pkg obj)) objs \<Longrightarrow>
      takeWhile (\<lambda>obj. \<not> isl (KeyFunc pkg obj)) objs = objs \<and>
      dropWhile (\<lambda>obj. \<not> isl (KeyFunc pkg obj)) objs = []"
    by (simp add: list_all_iff)
  have enq: "Enqueue ?t objs s =
       s\<lparr>wq := foldl (\<lambda>q key. wq_Add key q) (wq s)
                (map (projr \<circ> KeyFunc pkg) (takeWhile (\<lambda>obj. \<not> isl (KeyFunc pkg obj)) objs)),
         klog := klog s @
                (case dropWhile (\<lambda>obj. \<not> isl (KeyFunc pkg obj)) objs of
                   [] \<Rightarrow> []
                 | bad # _ \<Rightarrow> [CouldntGetKey bad (projl (KeyFunc pkg bad))]),
         calls := calls s @
                map (CallAdd \<circ> projr \<circ> KeyFunc pkg)
                  (takeWhile (\<lambda>obj. \<not> isl (KeyFunc pkg obj)) objs)\<rparr>"
    unfolding Enqueue_until_failure[of ?t objs s] made_fields
    by (simp add: rateLimitingQueue_def)
  have full: "list_all (\<lambda>obj. \<not> isl (KeyFunc pkg obj)) objs \<longrightarrow>
        calls (Enqueue ?t objs s) = calls s @ map (CallAdd \<circ> projr \<circ> KeyFunc pkg) objs
        \<and> klog (Enqueue ?t objs s) = klog s"
  proof
    assume "list_all (\<lambda>obj. \<not> isl (KeyFunc pkg obj)) objs"
    from all[OF this]
    have tw: "takeWhile (\<lambda>obj. \<not> isl (KeyFunc pkg obj)) objs = objs"
      and dw: "dropWhile (\<lambda>obj. \<not> isl (KeyFunc pkg obj)) objs = []" by blast+
    show "calls (Enqueue ?t objs s)
          = calls s @ map (CallAdd \<circ> projr \<circ> KeyFunc pkg) objs
        \<and> klog (Enqueue ?t objs s) = klog s"
      unfolding enq tw dw by simp
  qed
  have dflt: "keyFunc (fst (NewPeriodicTaskQueueWithLimiter package_init name resource' syncFn
      rl u)) = DeletionHandlingMetaNamespaceKeyFunc"
    by (simp add: made_fields package_init_def)
  have key: "keyFunc (fst (NewPeriodicTaskQueueWithLimiter package_init name resource' syncFn
      rl u)) (Object ns nm) = Inr (ns @ ''/'' @ nm)"
    unfolding dflt by (simp add: DeletionHandlingMetaNamespaceKeyFunc_def)
  have over: "keyFunc (fst (NewPeriodicTaskQueueWithLimiter (pkg\<lparr>KeyFunc := f\<rparr>) name resource'
      syncFn rl u)) = f"
    by (simp add: made_fields)
  from made_fields(1)[of pkg name resource' syncFn rl u] dflt key over enq full
  show ?thesis by (intro conjI)
qed

theorem Enqueue_uses_keyFunc_of_construction_witness:
  "keyFunc (fst example_queue) = DeletionHandlingMetaNamespaceKeyFunc
   \<and> keyFunc (fst example_queue) (Object ''ns'' ''foo'') = Inr ''ns/foo''
   \<and> keyFunc (fst (NewPeriodicTaskQueueWithLimiter
        (package_init\<lparr>KeyFunc := cluster_KeyFunc\<rparr>)
        ''ingress'' ''ingresses'' example_sync example_limiter 0)) = cluster_KeyFunc
   \<and> list_all (\<lambda>obj. \<not> isl (KeyFunc package_init obj))
        [Object ''ns'' ''foo'', Object ''ns'' ''bar'']
   \<and> calls (Enqueue (fst example_queue) [Object ''ns'' ''foo'', Object ''ns'' ''bar'']
        (snd example_queue)) = [CallAdd ''ns/foo'', CallAdd ''ns/bar'']
   \<and> klog (Enqueue (fst example_queue) [Object ''ns'' ''foo'', Object ''ns'' ''bar'']
        (snd example_queue)) = []
   \<and> PendingSet (wq (Enqueue (fst example_queue) [Object ''ns'' ''foo'', Object ''ns'' ''bar'']
        (snd example_queue))) = [''ns/foo'', ''ns/bar'']
   \<and> list_all (\<lambda>obj. \<not> isl (KeyFunc (package_init\<lparr>KeyFunc := cluster_KeyFunc\<rparr>) obj))
        [Unkeyed, Object ''ns'' ''foo'']
   \<and> calls (Enqueue (fst (NewPeriodicTaskQueueWithLimiter
        (package_init\<lparr>KeyFunc := cluster_KeyFunc\<rparr>)
        ''ingress'' ''ingresses'' example_sync example_limiter 0))
        [Unkeyed, Object ''ns'' ''foo''] (snd example_queue))
       = [CallAdd ''cluster'', CallAdd ''foo'']"
proof -
  let ?objs = "[Object ''ns'' ''foo'', Object ''ns'' ''bar'']"
  let ?s = "snd example_queue"
  note th = Enqueue_uses_keyFunc_of_construction[where pkg = package_init
      and name = "''ingress''" and resource' = "''ingresses''" and syncFn = example_sync
      and rl = example_limiter and u = "0::nat" and ns = "''ns''" and nm = "''foo''"
      and f = cluster_KeyFunc and objs = ?objs and s = ?s, folded example_queue_def]
  from th have dflt: "keyFunc (fst example_queue) = DeletionHandlingMetaNamespaceKeyFunc"
    by blast
  from th have "keyFunc (fst example_queue) (Object ''ns'' ''foo'') = Inr (''ns'' @ ''/'' @ ''foo'')"
    by blast
  then have key: "keyFunc (fst example_queue) (Object ''ns'' ''foo'') = Inr ''ns/foo''" by simp
  from th have over: "keyFunc (fst (NewPeriodicTaskQueueWithLimiter
        (package_init\<lparr>KeyFunc := cluster_KeyFunc\<rparr>)
        ''ingress'' ''ingresses'' example_sync example_limiter 0)) = cluster_KeyFunc" by blast
  have la: "list_all (\<lambda>obj. \<not> isl (KeyFunc package_init obj)) ?objs"
    by (simp add: package_init_def DeletionHandlingMetaNamespaceKeyFunc_def)
  from th la have "calls (Enqueue (fst example_queue) ?objs ?s)
          = calls ?s @ map (CallAdd \<circ> projr \<circ> KeyFunc package_init) ?objs"
    and "klog (Enqueue (fst example_queue) ?objs ?s) = klog ?s" by blast+
  then have cl: "calls (Enqueue (fst example_queue) ?objs ?s)
        = [CallAdd ''ns/foo'', CallAdd ''ns/bar'']"
    and lg: "klog (Enqueue (fst example_queue) ?objs ?s) = []"
    by (simp_all add: example_defs)
  from th have "Enqueue (fst example_queue) ?objs ?s =
       ?s\<lparr>wq := foldl (\<lambda>q key. wq_Add key q) (wq ?s)
                (map (projr \<circ> KeyFunc package_init)
                   (takeWhile (\<lambda>obj. \<not> isl (KeyFunc package_init obj)) ?objs)),
         klog := klog ?s @
                (case dropWhile (\<lambda>obj. \<not> isl (KeyFunc package_init obj)) ?objs of
                   [] \<Rightarrow> []
                 | bad # _ \<Rightarrow> [CouldntGetKey bad (projl (KeyFunc package_init bad))]),
         calls := calls ?s @
                map (CallAdd \<circ> projr \<circ> KeyFunc package_init)
                  (takeWhile (\<lambda>obj. \<not> isl (KeyFunc package_init obj)) ?objs)\<rparr>" by blast
  then have pend: "PendingSet (wq (Enqueue (fst example_queue) ?objs ?s))
      = [''ns/foo'', ''ns/bar'']"
    by (simp add: example_defs wq_defs)
  let ?objs2 = "[Unkeyed, Object ''ns'' ''foo'']"
  let ?pkg2 = "package_init\<lparr>KeyFunc := cluster_KeyFunc\<rparr>"
  note th2 = Enqueue_uses_keyFunc_of_construction[where pkg = ?pkg2
      and name = "''ingress''" and resource' = "''ingresses''" and syncFn = example_sync
      and rl = example_limiter and u = "0::nat" and objs = ?objs2 and s = ?s]
  have la2: "list_all (\<lambda>obj. \<not> isl (KeyFunc ?pkg2 obj)) ?objs2"
    by (simp add: cluster_KeyFunc_def)
  from th2 la2 have "calls (Enqueue (fst (NewPeriodicTaskQueueWithLimiter ?pkg2
        ''ingress'' ''ingresses'' example_sync example_limiter 0)) ?objs2 ?s)
      = calls ?s @ map (CallAdd \<circ> projr \<circ> KeyFunc ?pkg2) ?objs2" by blast
  then have cl2: "calls (Enqueue (fst (NewPeriodicTaskQueueWithLimiter ?pkg2
        ''ingress'' ''ingresses'' example_sync example_limiter 0)) ?objs2 ?s)
      = [CallAdd ''cluster'', CallAdd ''foo'']"
    by (simp add: example_defs cluster_KeyFunc_def del: Enqueue.simps)
  from dflt key over la cl lg pend la2 cl2 show ?thesis by (intro conjI)
qed

subsection \<open>The calls of Run\<close>

lemma calls_Run_body:
  "calls (Run_body t key s) =
     calls s @ (case fst (sync t key (app s)) of
                  Some e \<Rightarrow> [CallSync key (Some e), CallAddRateLimited key, CallDone key]
                | None \<Rightarrow> [CallSync key None, CallForget key, CallDone key])"
  by (simp add: Run_body_def call_sync_def queue_Done_def queue_AddRateLimited_def
      queue_Forget_def split: prod.splits option.splits)

lemma calls_queue_Get:
  "queue_Get t s = Some ((key, quit), s1) \<Longrightarrow> calls s1 = calls s @ [CallGet key quit]"
  by (auto simp: queue_Get_def split: option.splits)

lemma calls_close_workerDone:
  "close_workerDone s = Some s1 \<Longrightarrow> calls s1 = calls s @ [CloseWorkerDone]"
  by (auto simp: close_workerDone_def split: if_splits)

lemma calls_Run: "\<exists>new. calls (snd (Run n t s)) = calls s @ new \<and> worker_calls new"
proof (induction n arbitrary: s)
  case 0
  show ?case by (simp add: worker_calls.observed)
next
  case (Suc n)
  show ?case
  proof (cases "queue_Get t s")
    case None
    then show ?thesis by (simp add: worker_calls.observed)
  next
    case (Some r)
    obtain key quit s1 where r: "r = ((key, quit), s1)" by (metis surj_pair)
    have c1: "calls s1 = calls s @ [CallGet key quit]"
      using Some r calls_queue_Get by blast
    show ?thesis
    proof (cases quit)
      case True
      show ?thesis
      proof (cases "close_workerDone s1")
        case None
        with Some r True c1 show ?thesis by (simp add: worker_calls.closing)
      next
        case (Some s2)
        with \<open>queue_Get t s = Some r\<close> r True c1 calls_close_workerDone[OF Some]
        show ?thesis by (simp add: worker_calls.exited)
      qed
    next
      case False
      from Suc.IH[of "Run_body t key s1"] obtain new where
        new: "calls (snd (Run n t (Run_body t key s1))) = calls (Run_body t key s1) @ new"
        and wc: "worker_calls new" by blast
      show ?thesis
      proof (cases "fst (sync t key (app s1))")
        case None
        have "worker_calls
                (CallGet key False # CallSync key None # CallForget key # CallDone key # new)"
          using wc by (rule worker_calls.succeeded)
        with Some r False c1 new None show ?thesis
          by (simp add: calls_Run_body)
      next
        case (Some e)
        have "worker_calls
                (CallGet key False # CallSync key (Some e) # CallAddRateLimited key
                   # CallDone key # new)"
          using wc by (rule worker_calls.failed)
        with \<open>queue_Get t s = Some r\<close> r False c1 new Some show ?thesis
          by (simp add: calls_Run_body)
      qed
    qed
  qed
qed

lemma worker_calls_failure:
  "worker_calls cs \<Longrightarrow> cs = pre @ CallSync key (Some e) # post \<Longrightarrow>
     \<exists>pre' post'. pre = pre' @ [CallGet key False] \<and>
        post = CallAddRateLimited key # CallDone key # post' \<and> worker_calls post'"
proof (induction arbitrary: pre rule: worker_calls.induct)
  case observed
  then show ?case by simp
next
  case (closing k)
  then show ?case by (auto simp: Cons_eq_append_conv)
next
  case (exited k)
  then show ?case by (auto simp: Cons_eq_append_conv)
next
  case (failed cs k e')
  then show ?case by (auto simp: Cons_eq_append_conv)
next
  case (succeeded cs k)
  then show ?case by (auto simp: Cons_eq_append_conv)
qed

lemma worker_calls_success:
  "worker_calls cs \<Longrightarrow> cs = pre @ CallSync key None # post \<Longrightarrow>
     \<exists>pre' post'. pre = pre' @ [CallGet key False] \<and>
        post = CallForget key # CallDone key # post' \<and> worker_calls post'"
proof (induction arbitrary: pre rule: worker_calls.induct)
  case observed
  then show ?case by simp
next
  case (closing k)
  then show ?case by (auto simp: Cons_eq_append_conv)
next
  case (exited k)
  then show ?case by (auto simp: Cons_eq_append_conv)
next
  case (failed cs k e')
  then show ?case by (auto simp: Cons_eq_append_conv)
next
  case (succeeded cs k)
  then show ?case by (auto simp: Cons_eq_append_conv)
qed

lemma worker_calls_next:
  "worker_calls cs \<Longrightarrow> cs = [] \<or> (\<exists>key quit rest. cs = CallGet key quit # rest)"
  by (induction rule: worker_calls.induct) auto

lemma Enqueue_sync_update: "Enqueue (t\<lparr>sync := f\<rparr>) objs s = Enqueue t objs s"
  by (induction objs arbitrary: s) (auto simp: queue_Add_def split: sum.splits)

lemma apply_call_CloseWorkerDone [simp]: "apply_call t CloseWorkerDone qu = qu"
  by (cases qu) simp

lemma replay_append: "replay t (cs @ ds) qu = replay t ds (replay t cs qu)"
  by (simp add: replay_def)

lemma Run_body_failure:
  "fst (sync t key (app s)) = Some e \<Longrightarrow>
     Run_body t key s =
       s\<lparr>wq := Done (queue t) key (AddRateLimited (queue t) key (wq s)),
         app := snd (sync t key (app s)),
         klog := klog s @ [Requeuing key e (resource t)],
         calls := calls s @ [CallSync key (Some e), CallAddRateLimited key, CallDone key]\<rparr>"
  by (cases "sync t key (app s)") (simp add: queue_defs)

lemma Run_body_success:
  "fst (sync t key (app s)) = None \<Longrightarrow>
     Run_body t key s =
       s\<lparr>wq := Done (queue t) key (Forget (queue t) key (wq s)),
         app := snd (sync t key (app s)),
         calls := calls s @ [CallSync key None, CallForget key, CallDone key]\<rparr>"
  by (cases "sync t key (app s)") (simp add: queue_defs)

lemma queue_Get_state:
  "queue_Get t s = Some ((key, quit), s1) \<Longrightarrow>
     (wq s1, app s1) = apply_call t (CallGet key quit) (wq s, app s) \<and> klog s1 = klog s"
  by (auto simp: queue_Get_def split: option.splits)

lemma close_workerDone_state:
  "close_workerDone s = Some s1 \<Longrightarrow> wq s1 = wq s \<and> app s1 = app s \<and> klog s1 = klog s"
  by (auto simp: close_workerDone_def split: if_splits)

lemma Run_body_replay:
  "(wq (Run_body t key s), app (Run_body t key s)) =
      replay t (drop (length (calls s)) (calls (Run_body t key s))) (wq s, app s)
   \<and> klog (Run_body t key s) =
      klog s @ concat (map (requeue_log t) (drop (length (calls s)) (calls (Run_body t key s))))"
  by (cases "fst (sync t key (app s))")
    (simp_all add: Run_body_failure Run_body_success replay_def)

lemma Run_replay:
  "\<exists>new. calls (snd (Run n t s)) = calls s @ new \<and> worker_calls new \<and>
     (wq (snd (Run n t s)), app (snd (Run n t s))) = replay t new (wq s, app s) \<and>
     klog (snd (Run n t s)) = klog s @ concat (map (requeue_log t) new)"
proof (induction n arbitrary: s)
  case 0
  show ?case by (simp add: worker_calls.observed replay_def)
next
  case (Suc n)
  show ?case
  proof (cases "queue_Get t s")
    case None
    then show ?thesis by (simp add: worker_calls.observed replay_def)
  next
    case (Some r)
    obtain key quit s1 where r: "r = ((key, quit), s1)" by (metis surj_pair)
    have get: "queue_Get t s = Some ((key, quit), s1)" using Some r by simp
    note c1 = calls_queue_Get[OF get] and q1 = queue_Get_state[OF get]
    show ?thesis
    proof (cases quit)
      case True
      show ?thesis
      proof (cases "close_workerDone s1")
        case None
        with get True c1 q1 show ?thesis
          by (simp add: worker_calls.closing replay_def)
      next
        case (Some s2)
        with get True c1 q1 calls_close_workerDone[OF Some] close_workerDone_state[OF Some]
        show ?thesis by (simp add: worker_calls.exited replay_def)
      qed
    next
      case False
      let ?s2 = "Run_body t key s1"
      from Suc.IH[of ?s2] obtain new where
        new: "calls (snd (Run n t ?s2)) = calls ?s2 @ new"
        and wc: "worker_calls new"
        and st: "(wq (snd (Run n t ?s2)), app (snd (Run n t ?s2))) = replay t new (wq ?s2, app ?s2)"
        and lg: "klog (snd (Run n t ?s2)) = klog ?s2 @ concat (map (requeue_log t) new)"
        by blast
      define body where "body = drop (length (calls s1)) (calls ?s2)"
      have cb: "calls ?s2 = calls s1 @ body"
        by (simp add: body_def calls_Run_body split: option.splits)
      have wb: "worker_calls (CallGet key False # body @ new)"
        using wc by (cases "fst (sync t key (app s1))")
          (simp_all add: body_def calls_Run_body worker_calls.failed worker_calls.succeeded)
      from Run_body_replay[of t key s1]
      have sb: "(wq ?s2, app ?s2) = replay t body (wq s1, app s1)"
        and lb: "klog ?s2 = klog s1 @ concat (map (requeue_log t) body)"
        by (simp_all add: body_def)
      have "calls (snd (Run (Suc n) t s)) = calls s @ (CallGet key False # body @ new)"
        using get False new cb c1 by simp
      moreover have "(wq (snd (Run (Suc n) t s)), app (snd (Run (Suc n) t s)))
          = replay t (CallGet key False # body @ new) (wq s, app s)"
        using get False st sb q1
        by (simp add: replay_append replay_append[of t "[_]", simplified] replay_def)
      moreover have "klog (snd (Run (Suc n) t s))
          = klog s @ concat (map (requeue_log t) (CallGet key False # body @ new))"
        using get False lg lb q1 by simp
      ultimately show ?thesis using wb by blast
    qed
  qed
qed

text \<open>
  C3. Whenever an execution of \<^verbatim>\<open>Run\<close> records a call \<^verbatim>\<open>Sync(key)\<close> that returned
  an error, the call comes right after the \<^verbatim>\<open>Get\<close> that returned the key and is
  followed at once by \<^verbatim>\<open>AddRateLimited(key)\<close> and then \<^verbatim>\<open>Done(key)\<close>. The calls
  recorded are the calls made: the state of the queue and of the callback after
  \<^verbatim>\<open>Run\<close> is the state before it with the recorded calls applied in their order,
  and the error log has grown by exactly one line for each failed call of \<^verbatim>\<open>sync\<close>.
  An iteration of the loop in which \<^verbatim>\<open>Get\<close> returns a key and \<^verbatim>\<open>sync\<close> fails
  on it leaves the queue as \<^verbatim>\<open>Done(key)\<close> after \<^verbatim>\<open>AddRateLimited(key)\<close> leaves it,
  with the error logged, and goes on to the next iteration. The error goes to no caller
  of \<^verbatim>\<open>Enqueue\<close>: neither \<^verbatim>\<open>Run\<close> nor \<^verbatim>\<open>Enqueue\<close> returns an error value, and
  what \<^verbatim>\<open>Enqueue\<close> does is the same whatever the callback is.
\<close>

theorem Run_requeues_failed_key:
  assumes "calls (snd (Run n t s)) = calls s @ pre @ CallSync key (Some e) # post"
  shows "(\<exists>pre' post'. pre = pre' @ [CallGet key False] \<and>
            post = CallAddRateLimited key # CallDone key # post')
     \<and> (wq (snd (Run n t s)), app (snd (Run n t s)))
          = replay t (pre @ CallSync key (Some e) # post) (wq s, app s)
     \<and> klog (snd (Run n t s))
          = klog s @ concat (map (requeue_log t) (pre @ CallSync key (Some e) # post))
     \<and> (queue_Get t s1 = Some ((key1, False), s2) \<and> fst (sync t key1 (app s2)) = Some e1 \<longrightarrow>
          Run (Suc m) t s1 =
            Run m t
              (s2\<lparr>wq := Done (queue t) key1 (AddRateLimited (queue t) key1 (wq s2)),
                  app := snd (sync t key1 (app s2)),
                  klog := klog s2 @ [Requeuing key1 e1 (resource t)],
                  calls := calls s2 @ [CallSync key1 (Some e1), CallAddRateLimited key1,
                                       CallDone key1]\<rparr>))
     \<and> Enqueue (t\<lparr>sync := f\<rparr>) objs s' = Enqueue t objs s'"
proof -
  obtain new where new: "calls (snd (Run n t s)) = calls s @ new" and wc: "worker_calls new"
    and st: "(wq (snd (Run n t s)), app (snd (Run n t s))) = replay t new (wq s, app s)"
    and lg: "klog (snd (Run n t s)) = klog s @ concat (map (requeue_log t) new)"
    using Run_replay by blast
  from new assms have eq: "new = pre @ CallSync key (Some e) # post" by simp
  from worker_calls_failure[OF wc eq] have order: "\<exists>pre' post'. pre = pre' @ [CallGet key False] \<and>
            post = CallAddRateLimited key # CallDone key # post'" by blast
  have pass: "queue_Get t s1 = Some ((key1, False), s2) \<and> fst (sync t key1 (app s2)) = Some e1 \<longrightarrow>
          Run (Suc m) t s1 =
            Run m t
              (s2\<lparr>wq := Done (queue t) key1 (AddRateLimited (queue t) key1 (wq s2)),
                  app := snd (sync t key1 (app s2)),
                  klog := klog s2 @ [Requeuing key1 e1 (resource t)],
                  calls := calls s2 @ [CallSync key1 (Some e1), CallAddRateLimited key1,
                                       CallDone key1]\<rparr>)"
    by (auto simp: Run_body_failure)
  from order st lg pass show ?thesis
    unfolding eq by (simp only: Enqueue_sync_update)
qed

theorem Run_requeues_failed_key_witness:
  "calls (snd (Run (Suc (Suc 0)) (fst example_queue)
       (Enqueue (fst example_queue) [Object ''ns'' ''foo''] (snd example_queue))))
     = calls (Enqueue (fst example_queue) [Object ''ns'' ''foo''] (snd example_queue))
       @ [CallGet ''ns/foo'' False] @ CallSync ''ns/foo'' (Some ''not ready'')
       # [CallAddRateLimited ''ns/foo'', CallDone ''ns/foo'']
   \<and> (\<exists>pre' post'. [CallGet ''ns/foo'' False] = pre' @ [CallGet ''ns/foo'' False] \<and>
         [CallAddRateLimited ''ns/foo'', CallDone ''ns/foo'']
           = CallAddRateLimited ''ns/foo'' # CallDone ''ns/foo'' # post')
   \<and> (wq (snd (Run (Suc (Suc 0)) (fst example_queue)
          (Enqueue (fst example_queue) [Object ''ns'' ''foo''] (snd example_queue)))),
        app (snd (Run (Suc (Suc 0)) (fst example_queue)
          (Enqueue (fst example_queue) [Object ''ns'' ''foo''] (snd example_queue)))))
       = replay (fst example_queue)
           ([CallGet ''ns/foo'' False] @ CallSync ''ns/foo'' (Some ''not ready'')
              # [CallAddRateLimited ''ns/foo'', CallDone ''ns/foo''])
           (wq (Enqueue (fst example_queue) [Object ''ns'' ''foo''] (snd example_queue)),
            app (Enqueue (fst example_queue) [Object ''ns'' ''foo''] (snd example_queue)))
   \<and> scheduled (wq (snd (Run (Suc (Suc 0)) (fst example_queue)
          (Enqueue (fst example_queue) [Object ''ns'' ''foo''] (snd example_queue)))))
       = [(''ns/foo'', 5)]
   \<and> klog (snd (Run (Suc (Suc 0)) (fst example_queue)
          (Enqueue (fst example_queue) [Object ''ns'' ''foo''] (snd example_queue))))
       = [Requeuing ''ns/foo'' ''not ready'' ''ingresses'']
   \<and> queue_Get (fst example_queue)
         (Enqueue (fst example_queue) [Object ''ns'' ''foo''] (snd example_queue))
       = Some ((''ns/foo'', False),
           snd (the (queue_Get (fst example_queue)
             (Enqueue (fst example_queue) [Object ''ns'' ''foo''] (snd example_queue)))))
   \<and> fst (sync (fst example_queue) ''ns/foo''
         (app (snd (the (queue_Get (fst example_queue)
           (Enqueue (fst example_queue) [Object ''ns'' ''foo''] (snd example_queue)))))))
       = Some ''not ready''
   \<and> ActiveSet (wq (snd (Run (Suc 0) (fst example_queue)
         (Enqueue (fst example_queue) [Object ''ns'' ''foo''] (snd example_queue))))) = {}
   \<and> Enqueue ((fst example_queue)\<lparr>sync := (\<lambda>key u. (Some ''other'', u))\<rparr>) [Unkeyed]
         (snd example_queue)
       = Enqueue (fst example_queue) [Unkeyed] (snd example_queue)"
proof -
  let ?t = "fst example_queue"
  let ?s = "Enqueue ?t [Object ''ns'' ''foo''] (snd example_queue)"
  let ?s2 = "snd (the (queue_Get ?t ?s))"
  have run: "calls (snd (Run (Suc (Suc 0)) ?t ?s))
     = calls ?s @ [CallGet ''ns/foo'' False] @ CallSync ''ns/foo'' (Some ''not ready'')
       # [CallAddRateLimited ''ns/foo'', CallDone ''ns/foo'']"
    by (simp add: example_defs queue_defs wq_defs)
  have get: "queue_Get ?t ?s = Some ((''ns/foo'', False), ?s2)"
    by (simp add: example_defs queue_defs wq_defs)
  have err: "fst (sync ?t ''ns/foo'' (app ?s2)) = Some ''not ready''"
    by (simp add: example_defs queue_defs wq_defs)
  note th = Run_requeues_failed_key[OF run, where ?s1.0 = ?s and ?key1.0 = "''ns/foo''"
      and ?s2.0 = ?s2 and ?e1.0 = "''not ready''" and m = 0
      and f = "\<lambda>key u. (Some ''other'', u)" and objs = "[Unkeyed]" and s' = "snd example_queue"]
  from th have order: "\<exists>pre' post'. [CallGet ''ns/foo'' False] = pre' @ [CallGet ''ns/foo'' False] \<and>
         [CallAddRateLimited ''ns/foo'', CallDone ''ns/foo'']
           = CallAddRateLimited ''ns/foo'' # CallDone ''ns/foo'' # post'" by blast
  from th have st: "(wq (snd (Run (Suc (Suc 0)) ?t ?s)), app (snd (Run (Suc (Suc 0)) ?t ?s)))
       = replay ?t ([CallGet ''ns/foo'' False] @ CallSync ''ns/foo'' (Some ''not ready'')
              # [CallAddRateLimited ''ns/foo'', CallDone ''ns/foo'']) (wq ?s, app ?s)" by blast
  then have "wq (snd (Run (Suc (Suc 0)) ?t ?s))
       = fst (replay ?t ([CallGet ''ns/foo'' False] @ CallSync ''ns/foo'' (Some ''not ready'')
              # [CallAddRateLimited ''ns/foo'', CallDone ''ns/foo'']) (wq ?s, app ?s))"
    by (metis fst_conv)
  then have sch: "scheduled (wq (snd (Run (Suc (Suc 0)) ?t ?s))) = [(''ns/foo'', 5)]"
    by (simp add: replay_def example_defs queue_defs wq_defs)
  from th have "klog (snd (Run (Suc (Suc 0)) ?t ?s))
       = klog ?s @ concat (map (requeue_log ?t)
           ([CallGet ''ns/foo'' False] @ CallSync ''ns/foo'' (Some ''not ready'')
              # [CallAddRateLimited ''ns/foo'', CallDone ''ns/foo'']))" by blast
  then have lg: "klog (snd (Run (Suc (Suc 0)) ?t ?s))
       = [Requeuing ''ns/foo'' ''not ready'' ''ingresses'']"
    by (simp add: example_defs queue_defs wq_defs)
  from th get err have "Run (Suc 0) ?t ?s =
      Run 0 ?t (?s2\<lparr>wq := Done (queue ?t) ''ns/foo'' (AddRateLimited (queue ?t) ''ns/foo'' (wq ?s2)),
                  app := snd (sync ?t ''ns/foo'' (app ?s2)),
                  klog := klog ?s2 @ [Requeuing ''ns/foo'' ''not ready'' (resource ?t)],
                  calls := calls ?s2 @ [CallSync ''ns/foo'' (Some ''not ready''),
                     CallAddRateLimited ''ns/foo'', CallDone ''ns/foo'']\<rparr>)" by blast
  then have act: "ActiveSet (wq (snd (Run (Suc 0) ?t ?s))) = {}"
    by (simp add: example_defs queue_defs wq_defs)
  from th have enq: "Enqueue (?t\<lparr>sync := (\<lambda>key u. (Some ''other'', u))\<rparr>) [Unkeyed] (snd example_queue)
       = Enqueue ?t [Unkeyed] (snd example_queue)" by blast
  from run order st sch lg get err act enq show ?thesis by (intro conjI)
qed

text \<open>
  C4. Whenever an execution of \<^verbatim>\<open>Run\<close> records a call \<^verbatim>\<open>Sync(key)\<close> that returned
  \<^verbatim>\<open>nil\<close>, the call comes right after the \<^verbatim>\<open>Get\<close> that returned the key and is
  followed at once by \<^verbatim>\<open>Forget(key)\<close> and then \<^verbatim>\<open>Done(key)\<close>; the next call, if
  there is one, is the next \<^verbatim>\<open>Get\<close>, so the pass makes no call of
  \<^verbatim>\<open>AddRateLimited\<close>. The calls recorded are the calls made: the state of the queue
  and of the callback after \<^verbatim>\<open>Run\<close> is the state before it with the recorded calls
  applied in their order. An iteration of the loop in which \<^verbatim>\<open>Get\<close> returns a key
  and \<^verbatim>\<open>sync\<close> succeeds on it leaves the queue as \<^verbatim>\<open>Done(key)\<close> after
  \<^verbatim>\<open>Forget(key)\<close> leaves it, writes nothing to the error log, and goes on to the next
  iteration.
\<close>

theorem Run_forgets_synced_key:
  assumes "calls (snd (Run n t s)) = calls s @ pre @ CallSync key None # post"
  shows "(\<exists>pre' post'. pre = pre' @ [CallGet key False] \<and>
            post = CallForget key # CallDone key # post' \<and>
            (post' = [] \<or> (\<exists>key' quit rest. post' = CallGet key' quit # rest)))
     \<and> (wq (snd (Run n t s)), app (snd (Run n t s)))
          = replay t (pre @ CallSync key None # post) (wq s, app s)
     \<and> (queue_Get t s1 = Some ((key1, False), s2) \<and> fst (sync t key1 (app s2)) = None \<longrightarrow>
          Run (Suc m) t s1 =
            Run m t
              (s2\<lparr>wq := Done (queue t) key1 (Forget (queue t) key1 (wq s2)),
                  app := snd (sync t key1 (app s2)),
                  calls := calls s2 @ [CallSync key1 None, CallForget key1, CallDone key1]\<rparr>))"
proof -
  obtain new where new: "calls (snd (Run n t s)) = calls s @ new" and wc: "worker_calls new"
    and st: "(wq (snd (Run n t s)), app (snd (Run n t s))) = replay t new (wq s, app s)"
    using Run_replay by blast
  from new assms have eq: "new = pre @ CallSync key None # post" by simp
  from worker_calls_success[OF wc eq] obtain pre' post' where
    "pre = pre' @ [CallGet key False]" "post = CallForget key # CallDone key # post'"
    "worker_calls post'" by blast
  with worker_calls_next[of post'] have order: "\<exists>pre' post'. pre = pre' @ [CallGet key False] \<and>
            post = CallForget key # CallDone key # post' \<and>
            (post' = [] \<or> (\<exists>key' quit rest. post' = CallGet key' quit # rest))" by blast
  have pass: "queue_Get t s1 = Some ((key1, False), s2) \<and> fst (sync t key1 (app s2)) = None \<longrightarrow>
          Run (Suc m) t s1 =
            Run m t
              (s2\<lparr>wq := Done (queue t) key1 (Forget (queue t) key1 (wq s2)),
                  app := snd (sync t key1 (app s2)),
                  calls := calls s2 @ [CallSync key1 None, CallForget key1, CallDone key1]\<rparr>)"
    by (auto simp: Run_body_success)
  from order st pass show ?thesis unfolding eq by blast
qed

theorem Run_forgets_synced_key_witness:
  "calls (snd (Run (Suc (Suc 0)) (fst example_queue)
       (Enqueue (fst example_queue) [Object ''ns'' ''foo''] ((snd example_queue)\<lparr>app := 1\<rparr>))))
     = calls (Enqueue (fst example_queue) [Object ''ns'' ''foo''] ((snd example_queue)\<lparr>app := 1\<rparr>))
       @ [CallGet ''ns/foo'' False] @ CallSync ''ns/foo'' None
       # [CallForget ''ns/foo'', CallDone ''ns/foo'']
   \<and> (\<exists>pre' post'. [CallGet ''ns/foo'' False] = pre' @ [CallGet ''ns/foo'' False] \<and>
         [CallForget ''ns/foo'', CallDone ''ns/foo'']
           = CallForget ''ns/foo'' # CallDone ''ns/foo'' # post' \<and>
         (post' = [] \<or> (\<exists>key' quit rest. post' = CallGet key' quit # rest)))
   \<and> (wq (snd (Run (Suc (Suc 0)) (fst example_queue)
          (Enqueue (fst example_queue) [Object ''ns'' ''foo''] ((snd example_queue)\<lparr>app := 1\<rparr>)))),
        app (snd (Run (Suc (Suc 0)) (fst example_queue)
          (Enqueue (fst example_queue) [Object ''ns'' ''foo''] ((snd example_queue)\<lparr>app := 1\<rparr>)))))
       = replay (fst example_queue)
           ([CallGet ''ns/foo'' False] @ CallSync ''ns/foo'' None
              # [CallForget ''ns/foo'', CallDone ''ns/foo''])
           (wq (Enqueue (fst example_queue) [Object ''ns'' ''foo''] ((snd example_queue)\<lparr>app := 1\<rparr>)),
            app (Enqueue (fst example_queue) [Object ''ns'' ''foo''] ((snd example_queue)\<lparr>app := 1\<rparr>)))
   \<and> queue_Get (fst example_queue)
         (Enqueue (fst example_queue) [Object ''ns'' ''foo''] ((snd example_queue)\<lparr>app := 1\<rparr>))
       = Some ((''ns/foo'', False),
           snd (the (queue_Get (fst example_queue)
             (Enqueue (fst example_queue) [Object ''ns'' ''foo''] ((snd example_queue)\<lparr>app := 1\<rparr>)))))
   \<and> fst (sync (fst example_queue) ''ns/foo''
         (app (snd (the (queue_Get (fst example_queue)
           (Enqueue (fst example_queue) [Object ''ns'' ''foo''] ((snd example_queue)\<lparr>app := 1\<rparr>)))))))
       = None
   \<and> ActiveSet (wq (snd (Run (Suc 0) (fst example_queue)
         (Enqueue (fst example_queue) [Object ''ns'' ''foo''] ((snd example_queue)\<lparr>app := 1\<rparr>))))) = {}
   \<and> scheduled (wq (snd (Run (Suc 0) (fst example_queue)
         (Enqueue (fst example_queue) [Object ''ns'' ''foo''] ((snd example_queue)\<lparr>app := 1\<rparr>))))) = []"
proof -
  let ?t = "fst example_queue"
  let ?s = "Enqueue ?t [Object ''ns'' ''foo''] ((snd example_queue)\<lparr>app := 1\<rparr>)"
  let ?s2 = "snd (the (queue_Get ?t ?s))"
  have run: "calls (snd (Run (Suc (Suc 0)) ?t ?s))
     = calls ?s @ [CallGet ''ns/foo'' False] @ CallSync ''ns/foo'' None
       # [CallForget ''ns/foo'', CallDone ''ns/foo'']"
    by (simp add: example_defs queue_defs wq_defs)
  have get: "queue_Get ?t ?s = Some ((''ns/foo'', False), ?s2)"
    by (simp add: example_defs queue_defs wq_defs)
  have ok: "fst (sync ?t ''ns/foo'' (app ?s2)) = None"
    by (simp add: example_defs queue_defs wq_defs)
  note th = Run_forgets_synced_key[OF run, where ?s1.0 = ?s and ?key1.0 = "''ns/foo''"
      and ?s2.0 = ?s2 and m = 0]
  from th have order: "\<exists>pre' post'. [CallGet ''ns/foo'' False] = pre' @ [CallGet ''ns/foo'' False] \<and>
         [CallForget ''ns/foo'', CallDone ''ns/foo'']
           = CallForget ''ns/foo'' # CallDone ''ns/foo'' # post' \<and>
         (post' = [] \<or> (\<exists>key' quit rest. post' = CallGet key' quit # rest))" by blast
  from th have st: "(wq (snd (Run (Suc (Suc 0)) ?t ?s)), app (snd (Run (Suc (Suc 0)) ?t ?s)))
       = replay ?t ([CallGet ''ns/foo'' False] @ CallSync ''ns/foo'' None
              # [CallForget ''ns/foo'', CallDone ''ns/foo'']) (wq ?s, app ?s)" by blast
  from th get ok have "Run (Suc 0) ?t ?s =
      Run 0 ?t (?s2\<lparr>wq := Done (queue ?t) ''ns/foo'' (Forget (queue ?t) ''ns/foo'' (wq ?s2)),
                  app := snd (sync ?t ''ns/foo'' (app ?s2)),
                  calls := calls ?s2 @ [CallSync ''ns/foo'' None,
                     CallForget ''ns/foo'', CallDone ''ns/foo'']\<rparr>)" by blast
  then have act: "ActiveSet (wq (snd (Run (Suc 0) ?t ?s))) = {}"
    "scheduled (wq (snd (Run (Suc 0) ?t ?s))) = []"
    by (simp_all add: example_defs queue_defs wq_defs)
  from run order st get ok act show ?thesis by (intro conjI)
qed

subsection \<open>Keys enqueued twice\<close>

lemma distinct_wq_Add: "distinct (PendingSet q) \<Longrightarrow> distinct (PendingSet (wq_Add key q))"
  by (simp add: wq_Add_def)

lemma wq_Add_twice: "wq_Add key (wq_Add key q) = wq_Add key q"
  by (simp add: wq_Add_def)

lemma distinct_wq_elapsed:
  "distinct (PendingSet q) \<Longrightarrow> distinct (PendingSet (wq_elapsed key q))"
  by (simp add: wq_elapsed_def wq_Add_def split: option.splits)

lemma distinct_wq_Get:
  "wq_Get q = Some (r, q') \<Longrightarrow> distinct (PendingSet q) \<Longrightarrow> distinct (PendingSet q')"
  by (auto simp: wq_Get_def split: if_splits list.splits)

lemma distinct_Enqueue:
  "queue t = rateLimitingQueue rl \<Longrightarrow> distinct (PendingSet (wq s)) \<Longrightarrow>
     distinct (PendingSet (wq (Enqueue t objs s)))"
  by (induction objs arbitrary: s)
    (auto simp: queue_Add_def rateLimitingQueue_def distinct_wq_Add split: sum.splits)

lemma PendingSet_Run_body:
  "queue t = rateLimitingQueue rl \<Longrightarrow> PendingSet (wq (Run_body t key s)) = PendingSet (wq s)"
  by (simp add: queue_defs wq_defs rateLimitingQueue_def split: prod.splits option.splits)

lemma distinct_queue_Get:
  "queue t = rateLimitingQueue rl \<Longrightarrow> queue_Get t s = Some (r, s1) \<Longrightarrow>
     distinct (PendingSet (wq s)) \<Longrightarrow> distinct (PendingSet (wq s1))"
  by (auto simp: queue_Get_def rateLimitingQueue_def split: option.splits dest: distinct_wq_Get)

lemma PendingSet_close_workerDone:
  "close_workerDone s = Some s1 \<Longrightarrow> wq s1 = wq s"
  by (auto simp: close_workerDone_def split: if_splits)

lemma distinct_worker_step:
  assumes "queue t = rateLimitingQueue rl" "worker_step t \<sigma> = Some \<sigma>'"
    "distinct (PendingSet (wq (shared \<sigma>)))"
  shows "distinct (PendingSet (wq (shared \<sigma>')))"
  using assms
  by (auto simp: worker_step_def PendingSet_Run_body PendingSet_close_workerDone
      split: worker_at.splits option.splits if_splits prod.splits
      dest: distinct_queue_Get)

lemma distinct_step:
  assumes "queue t = rateLimitingQueue rl" "step t a \<sigma> = Some \<sigma>'" "timer_or_call a"
    "distinct (PendingSet (wq (shared \<sigma>)))"
  shows "distinct (PendingSet (wq (shared \<sigma>')))"
proof (cases a)
  case WorkerStep
  with assms show ?thesis by (auto simp: step_def dest: distinct_worker_step)
next
  case (CallEnqueue objs)
  with assms show ?thesis by (auto simp: step_def distinct_Enqueue)
next
  case CallShutdown
  with assms show ?thesis
    by (auto simp: step_def Shutdown_call_def queue_ShutDown_def rateLimitingQueue_def
        wq_ShutDown_def split: if_splits)
next
  case ShutdownReceive
  with assms show ?thesis
    by (auto simp: step_def Shutdown_receive_def split: if_splits)
next
  case (QueueInternal f)
  with assms show ?thesis by (auto simp: step_def distinct_wq_elapsed)
next
  case GoRun
  with assms show ?thesis by (auto simp: step_def split: if_splits)
qed

lemma distinct_exec:
  assumes "queue t = rateLimitingQueue rl"
  shows "exec t acts \<sigma> = Some \<sigma>' \<Longrightarrow> list_all timer_or_call acts \<Longrightarrow>
     distinct (PendingSet (wq (shared \<sigma>))) \<Longrightarrow> distinct (PendingSet (wq (shared \<sigma>')))"
proof (induction acts arbitrary: \<sigma>)
  case Nil
  then show ?case by simp
next
  case (Cons a acts)
  then obtain \<sigma>1 where s1: "step t a \<sigma> = Some \<sigma>1" and rest: "exec t acts \<sigma>1 = Some \<sigma>'"
    by (auto split: option.splits)
  from Cons.prems have "timer_or_call a" "list_all timer_or_call acts" by simp_all
  with distinct_step[OF assms s1] Cons.prems(3) Cons.IH[OF rest] show ?case by blast
qed

lemma syncs_Run_idle:
  assumes "queue t = rateLimitingQueue rl"
    and "PendingSet (wq s) = [key]" "ActiveSet (wq s) = {}" "\<not> closed (wq s)"
  shows "syncs (snd (Run (Suc n) t s)) = syncs s @ [CallSync key (fst (sync t key (app s)))]"
proof -
  have get: "queue_Get t s = Some ((key, False),
      s\<lparr>wq := (wq s)\<lparr>PendingSet := [], ActiveSet := {key}\<rparr>, calls := calls s @ [CallGet key False]\<rparr>)"
    using assms by (simp add: queue_Get_def rateLimitingQueue_def wq_Get_def)
  define s1 where "s1 = s\<lparr>wq := (wq s)\<lparr>PendingSet := [], ActiveSet := {key}\<rparr>,
      calls := calls s @ [CallGet key False]\<rparr>"
  define s2 where "s2 = Run_body t key s1"
  have p2: "PendingSet (wq s2) = []"
    using assms(1) by (simp add: s2_def s1_def PendingSet_Run_body)
  have c2: "\<not> closed (wq s2)"
    using assms by (simp add: s2_def s1_def queue_defs wq_defs rateLimitingQueue_def
        split: prod.splits option.splits)
  have y2: "syncs s2 = syncs s @ [CallSync key (fst (sync t key (app s)))]"
    by (simp add: syncs_def s2_def calls_Run_body s1_def split: option.splits)
  have "syncs (snd (Run n t s2)) = syncs s2"
  proof (cases n)
    case 0
    then show ?thesis by simp
  next
    case (Suc m)
    have "queue_Get t s2 = None"
      using assms(1) p2 c2 by (simp add: queue_Get_def rateLimitingQueue_def wq_Get_def)
    with Suc show ?thesis by simp
  qed
  with get y2 show ?thesis by (simp add: s1_def s2_def)
qed

lemma queue_example_queue: "queue (fst example_queue) = rateLimitingQueue example_limiter"
  by (simp add: example_queue_def NewPeriodicTaskQueueWithLimiter_def NewRateLimitingQueue_def
      NewNamedRateLimitingQueue_def)

text \<open>
  C5. With the modelled queue behind the interface and two objects of the same key: the
  second \<^verbatim>\<open>Add\<close> changes nothing, so enqueuing both leaves the queue as enqueuing
  one does; on a queue with nothing pending or active, \<^verbatim>\<open>Run\<close> then calls
  \<^verbatim>\<open>sync\<close> for the key exactly once; and along every schedule of the goroutines (the
  timers of the queue included) no key is twice in the PendingSet.
\<close>

theorem Enqueue_same_key_twice:
  assumes "queue t = rateLimitingQueue rl" and "keyFunc t a = Inr key" and "keyFunc t b = Inr key"
  shows "wq (Enqueue t [a, b] s) = wq (Enqueue t [a] s)
     \<and> (PendingSet (wq s) = [] \<and> ActiveSet (wq s) = {} \<and> \<not> closed (wq s) \<longrightarrow>
          syncs (snd (Run (Suc n) t (Enqueue t [a, b] s)))
            = syncs s @ [CallSync key (fst (sync t key (app s)))])
     \<and> (distinct (PendingSet (wq s0)) \<and> list_all timer_or_call acts \<and>
          exec t acts \<lparr>shared = s0, worker = w, stopper = st\<rparr> = Some \<sigma> \<longrightarrow>
          distinct (PendingSet (wq (shared \<sigma>))))"
proof (intro conjI impI)
  show "wq (Enqueue t [a, b] s) = wq (Enqueue t [a] s)"
    using assms by (simp add: queue_Add_def rateLimitingQueue_def wq_Add_twice)
next
  assume idle: "PendingSet (wq s) = [] \<and> ActiveSet (wq s) = {} \<and> \<not> closed (wq s)"
  let ?s = "Enqueue t [a, b] s"
  have "PendingSet (wq ?s) = [key]" "ActiveSet (wq ?s) = {}" "\<not> closed (wq ?s)"
    "syncs ?s = syncs s" "app ?s = app s"
    using assms idle by (simp_all add: queue_Add_def rateLimitingQueue_def wq_Add_def syncs_def)
  with syncs_Run_idle[OF assms(1), of ?s key n]
  show "syncs (snd (Run (Suc n) t ?s)) = syncs s @ [CallSync key (fst (sync t key (app s)))]"
    by simp
next
  assume "distinct (PendingSet (wq s0)) \<and> list_all timer_or_call acts \<and>
          exec t acts \<lparr>shared = s0, worker = w, stopper = st\<rparr> = Some \<sigma>"
  with distinct_exec[OF assms(1), of acts "\<lparr>shared = s0, worker = w, stopper = st\<rparr>" \<sigma>]
  show "distinct (PendingSet (wq (shared \<sigma>)))" by simp
qed

lemma exec_example_dedup: "exec (fst example_queue)
          [GoRun, CallEnqueue [Object ''ns'' ''foo''], CallEnqueue [Object ''ns'' ''foo''],
           WorkerStep, CallEnqueue [Object ''ns'' ''foo''], WorkerStep,
           QueueInternal (wq_elapsed ''ns/foo'')]
          \<lparr>shared = snd example_queue, worker = NotStarted, stopper = NotCalled\<rparr> \<noteq> None"
   by (simp add: example_defs queue_defs wq_defs step_defs wq_elapsed_def)

theorem Enqueue_same_key_twice_witness:
  "keyFunc (fst example_queue) (Object ''ns'' ''foo'') = Inr ''ns/foo''
   \<and> wq (Enqueue (fst example_queue) [Object ''ns'' ''foo'', Object ''ns'' ''foo'']
          (snd example_queue))
       = wq (Enqueue (fst example_queue) [Object ''ns'' ''foo''] (snd example_queue))
   \<and> syncs (snd (Run (Suc (Suc 0)) (fst example_queue)
        (Enqueue (fst example_queue) [Object ''ns'' ''foo'', Object ''ns'' ''foo'']
          (snd example_queue))))
       = [CallSync ''ns/foo'' (Some ''not ready'')]
   \<and> (\<exists>\<sigma>. exec (fst example_queue)
          [GoRun, CallEnqueue [Object ''ns'' ''foo''], CallEnqueue [Object ''ns'' ''foo''],
           WorkerStep, CallEnqueue [Object ''ns'' ''foo''], WorkerStep,
           QueueInternal (wq_elapsed ''ns/foo'')]
          \<lparr>shared = snd example_queue, worker = NotStarted, stopper = NotCalled\<rparr> = Some \<sigma>
        \<and> distinct (PendingSet (wq (shared \<sigma>))))"
proof -
  let ?t = "fst example_queue" and ?s = "snd example_queue" and ?o = "Object ''ns'' ''foo''"
  let ?acts = "[GoRun, CallEnqueue [?o], CallEnqueue [?o], WorkerStep, CallEnqueue [?o],
     WorkerStep, QueueInternal (wq_elapsed ''ns/foo'')]"
  have k: "keyFunc ?t ?o = Inr ''ns/foo''" by (simp add: example_defs)
  have idle: "PendingSet (wq ?s) = [] \<and> ActiveSet (wq ?s) = {} \<and> \<not> closed (wq ?s)"
    by (simp add: example_defs)
  have y: "syncs ?s = []" "fst (sync ?t ''ns/foo'' (app ?s)) = Some ''not ready''"
    by (simp_all add: example_defs syncs_def)
  have timers: "list_all timer_or_call ?acts" by auto
  obtain \<sigma> where run: "exec ?t ?acts \<lparr>shared = ?s, worker = NotStarted, stopper = NotCalled\<rparr> = Some \<sigma>"
    using exec_example_dedup by blast
  have d: "distinct (PendingSet (wq ?s))" using idle by simp
  note th = Enqueue_same_key_twice[OF queue_example_queue k k, of ?s "Suc 0" ?s ?acts
      NotStarted NotCalled \<sigma>]
  from th idle y timers run d k show ?thesis by simp
qed

subsection \<open>The state of the rate limiter\<close>

lemma streak_snoc: "streak key (cs @ [c]) = tally key (streak key cs) c"
  by (simp add: streak_def)

lemma streak_Enqueue: "streak key (calls (Enqueue t objs s)) = streak key (calls s)"
  by (induction objs arbitrary: s) (auto simp: queue_Add_def streak_snoc split: sum.splits)

lemma limiter_Enqueue:
  "queue t = rateLimitingQueue rl \<Longrightarrow>
     RateLimiterState (wq (Enqueue t objs s)) = RateLimiterState (wq s)"
  by (induction objs arbitrary: s)
    (auto simp: queue_Add_def rateLimitingQueue_def wq_Add_def split: sum.splits)

lemma counts_Enqueue:
  "queue t = rateLimitingQueue rl \<Longrightarrow> limiter_counts_streak s \<Longrightarrow>
     limiter_counts_streak (Enqueue t objs s)"
  by (simp add: limiter_counts_streak_def streak_Enqueue limiter_Enqueue)

lemma counts_queue_Get:
  "queue t = rateLimitingQueue rl \<Longrightarrow> queue_Get t s = Some (r, s1) \<Longrightarrow>
     limiter_counts_streak s \<Longrightarrow> limiter_counts_streak s1"
  by (auto simp: limiter_counts_streak_def queue_Get_def rateLimitingQueue_def wq_Get_def
      streak_snoc split: option.splits if_splits list.splits)

lemma limiter_Run_body:
  assumes "queue t = rateLimitingQueue rl"
  shows "RateLimiterState (wq (Run_body t key s)) =
     (RateLimiterState (wq s))(key :=
        (case fst (sync t key (app s)) of None \<Rightarrow> 0 | Some e \<Rightarrow> Suc (RateLimiterState (wq s) key)))"
  using assms by (simp add: queue_defs wq_defs rateLimitingQueue_def split: prod.splits option.splits)

lemma scheduled_Run_body:
  assumes "queue t = rateLimitingQueue rl"
  shows "scheduled (wq (Run_body t key s)) =
     scheduled (wq s) @
       (case fst (sync t key (app s)) of None \<Rightarrow> []
        | Some e \<Rightarrow> [(key, rl (RateLimiterState (wq s) key))])"
  using assms by (simp add: queue_defs wq_defs rateLimitingQueue_def split: prod.splits option.splits)

lemma streak_Run_body:
  "streak k (calls (Run_body t key s)) =
     (if k = key then (case fst (sync t key (app s)) of None \<Rightarrow> 0 | Some e \<Rightarrow> Suc (streak k (calls s)))
      else streak k (calls s))"
  by (cases "fst (sync t key (app s))"; cases "k = key") (simp_all add: calls_Run_body streak_def)

lemma counts_Run_body:
  "queue t = rateLimitingQueue rl \<Longrightarrow> limiter_counts_streak s \<Longrightarrow>
     limiter_counts_streak (Run_body t key s)"
  by (auto simp: limiter_counts_streak_def limiter_Run_body streak_Run_body fun_eq_iff
      split: option.splits)

lemma counts_close_workerDone:
  "close_workerDone s = Some s1 \<Longrightarrow> limiter_counts_streak s \<Longrightarrow> limiter_counts_streak s1"
  by (auto simp: close_workerDone_def limiter_counts_streak_def streak_snoc split: if_splits)

lemma counts_worker_step:
  assumes "queue t = rateLimitingQueue rl" "worker_step t \<sigma> = Some \<sigma>'"
    "limiter_counts_streak (shared \<sigma>)"
  shows "limiter_counts_streak (shared \<sigma>')"
  using assms
  by (auto simp: worker_step_def counts_Run_body
      split: worker_at.splits option.splits if_splits prod.splits
      dest: counts_queue_Get counts_close_workerDone)

lemma counts_step:
  assumes "queue t = rateLimitingQueue rl" "step t a \<sigma> = Some \<sigma>'" "timer_or_call a"
    "limiter_counts_streak (shared \<sigma>)"
  shows "limiter_counts_streak (shared \<sigma>')"
proof (cases a)
  case WorkerStep
  with assms show ?thesis by (auto simp: step_def dest: counts_worker_step)
next
  case (CallEnqueue objs)
  with assms show ?thesis by (auto simp: step_def counts_Enqueue)
next
  case CallShutdown
  with assms show ?thesis
    by (auto simp: step_def Shutdown_call_def queue_ShutDown_def rateLimitingQueue_def
        wq_ShutDown_def limiter_counts_streak_def streak_snoc split: if_splits)
next
  case ShutdownReceive
  with assms show ?thesis
    by (auto simp: step_def Shutdown_receive_def split: if_splits)
next
  case (QueueInternal f)
  with assms show ?thesis
    by (auto simp: step_def limiter_counts_streak_def wq_elapsed_def wq_Add_def
        split: option.splits)
next
  case GoRun
  with assms show ?thesis by (auto simp: step_def split: if_splits)
qed

lemma counts_exec:
  assumes "queue t = rateLimitingQueue rl"
  shows "exec t acts \<sigma> = Some \<sigma>' \<Longrightarrow> list_all timer_or_call acts \<Longrightarrow>
     limiter_counts_streak (shared \<sigma>) \<Longrightarrow> limiter_counts_streak (shared \<sigma>')"
proof (induction acts arbitrary: \<sigma>)
  case Nil
  then show ?case by simp
next
  case (Cons a acts)
  then obtain \<sigma>1 where s1: "step t a \<sigma> = Some \<sigma>1" and rest: "exec t acts \<sigma>1 = Some \<sigma>'"
    by (auto split: option.splits)
  from Cons.prems have "timer_or_call a" "list_all timer_or_call acts" by simp_all
  with counts_step[OF assms s1] Cons.prems(3) Cons.IH[OF rest] show ?case by blast
qed

text \<open>
  C6. With the modelled queue behind the interface: a pass of the loop body for a key
  whose \<^verbatim>\<open>sync\<close> succeeds leaves the limiter state of the key at the base state
  \<open>0\<close>; a pass whose \<^verbatim>\<open>sync\<close> fails raises it by one and schedules the key with the
  delay of the state before; a failure right after a success is scheduled with the base
  delay \<open>rl 0\<close>; and along every schedule of the goroutines the limiter state of every
  key is the number of its failures since its last success.
\<close>

theorem limiter_reset_on_success_advanced_on_failure:
  assumes "queue t = rateLimitingQueue rl"
  shows "(fst (sync t key (app s)) = None \<longrightarrow> RateLimiterState (wq (Run_body t key s)) key = 0)
     \<and> (fst (sync t key (app s)) \<noteq> None \<longrightarrow>
          RateLimiterState (wq (Run_body t key s)) key = Suc (RateLimiterState (wq s) key) \<and>
          scheduled (wq (Run_body t key s))
            = scheduled (wq s) @ [(key, rl (RateLimiterState (wq s) key))])
     \<and> (fst (sync t key (app s)) = None \<and> fst (sync t key (app (Run_body t key s))) \<noteq> None \<longrightarrow>
          scheduled (wq (Run_body t key (Run_body t key s)))
            = scheduled (wq s) @ [(key, rl 0)])
     \<and> (limiter_counts_streak s0 \<and> list_all timer_or_call acts \<and>
          exec t acts \<lparr>shared = s0, worker = w, stopper = st\<rparr> = Some \<sigma> \<longrightarrow>
          limiter_counts_streak (shared \<sigma>))"
proof (intro conjI impI)
  show "RateLimiterState (wq (Run_body t key s)) key = 0" if "fst (sync t key (app s)) = None"
    using that by (simp add: limiter_Run_body[OF assms])
next
  assume f: "fst (sync t key (app s)) \<noteq> None"
  then show "RateLimiterState (wq (Run_body t key s)) key = Suc (RateLimiterState (wq s) key)"
    by (auto simp: limiter_Run_body[OF assms])
  from f show "scheduled (wq (Run_body t key s))
            = scheduled (wq s) @ [(key, rl (RateLimiterState (wq s) key))]"
    by (auto simp: scheduled_Run_body[OF assms])
next
  assume "fst (sync t key (app s)) = None \<and> fst (sync t key (app (Run_body t key s))) \<noteq> None"
  then show "scheduled (wq (Run_body t key (Run_body t key s))) = scheduled (wq s) @ [(key, rl 0)]"
    by (auto simp: scheduled_Run_body[OF assms] limiter_Run_body[OF assms])
next
  assume "limiter_counts_streak s0 \<and> list_all timer_or_call acts \<and>
          exec t acts \<lparr>shared = s0, worker = w, stopper = st\<rparr> = Some \<sigma>"
  with counts_exec[OF assms, of acts "\<lparr>shared = s0, worker = w, stopper = st\<rparr>" \<sigma>]
  show "limiter_counts_streak (shared \<sigma>)" by simp
qed

lemma exec_example_retry: "exec (fst example_queue)
          [GoRun, CallEnqueue [Object ''ns'' ''foo''], WorkerStep, WorkerStep,
           QueueInternal (wq_elapsed ''ns/foo''), WorkerStep, WorkerStep]
          \<lparr>shared = snd example_queue, worker = NotStarted, stopper = NotCalled\<rparr> \<noteq> None"
  by (simp add: example_defs queue_defs wq_defs step_defs wq_elapsed_def)

theorem limiter_reset_on_success_advanced_on_failure_witness:
  "RateLimiterState (wq (Run_body ((fst example_queue)\<lparr>sync := alternating_sync\<rparr>) ''ns/foo''
      ((snd example_queue)\<lparr>wq := (wq (snd example_queue))\<lparr>RateLimiterState := (\<lambda>key. 2)\<rparr>\<rparr>)))
      ''ns/foo'' = 0
   \<and> RateLimiterState (wq (Run_body ((fst example_queue)\<lparr>sync := alternating_sync\<rparr>) ''ns/foo''
      ((snd example_queue)\<lparr>wq := (wq (snd example_queue))\<lparr>RateLimiterState := (\<lambda>key. 2)\<rparr>,
          app := 1\<rparr>))) ''ns/foo'' = 3
   \<and> scheduled (wq (Run_body ((fst example_queue)\<lparr>sync := alternating_sync\<rparr>) ''ns/foo''
      ((snd example_queue)\<lparr>wq := (wq (snd example_queue))\<lparr>RateLimiterState := (\<lambda>key. 2)\<rparr>,
          app := 1\<rparr>))) = [(''ns/foo'', 20)]
   \<and> scheduled (wq (Run_body ((fst example_queue)\<lparr>sync := alternating_sync\<rparr>) ''ns/foo''
       (Run_body ((fst example_queue)\<lparr>sync := alternating_sync\<rparr>) ''ns/foo''
         ((snd example_queue)\<lparr>wq := (wq (snd example_queue))\<lparr>RateLimiterState := (\<lambda>key. 2)\<rparr>\<rparr>))))
       = [(''ns/foo'', 5)]
   \<and> (\<exists>\<sigma>. exec (fst example_queue)
          [GoRun, CallEnqueue [Object ''ns'' ''foo''], WorkerStep, WorkerStep,
           QueueInternal (wq_elapsed ''ns/foo''), WorkerStep, WorkerStep]
          \<lparr>shared = snd example_queue, worker = NotStarted, stopper = NotCalled\<rparr> = Some \<sigma>
        \<and> limiter_counts_streak (shared \<sigma>))"
proof -
  let ?t = "(fst example_queue)\<lparr>sync := alternating_sync\<rparr>"
  let ?s = "(snd example_queue)\<lparr>wq := (wq (snd example_queue))\<lparr>RateLimiterState := (\<lambda>key. 2)\<rparr>\<rparr>"
  let ?acts = "[GoRun, CallEnqueue [Object ''ns'' ''foo''], WorkerStep, WorkerStep,
           QueueInternal (wq_elapsed ''ns/foo''), WorkerStep, WorkerStep]"
  have q: "queue ?t = rateLimitingQueue example_limiter"
    by (simp add: queue_example_queue)
  have ok: "fst (sync ?t ''ns/foo'' (app ?s)) = None"
    and bad: "fst (sync ?t ''ns/foo'' (app (?s\<lparr>app := 1\<rparr>))) \<noteq> None"
    and then_bad: "fst (sync ?t ''ns/foo'' (app (Run_body ?t ''ns/foo'' ?s))) \<noteq> None"
    by (simp_all add: alternating_sync_def example_defs queue_defs)
  have st: "RateLimiterState (wq (?s\<lparr>app := 1\<rparr>)) ''ns/foo'' = 2"
    "scheduled (wq (?s\<lparr>app := 1\<rparr>)) = []" "scheduled (wq ?s) = []"
    "example_limiter 2 = 20" "example_limiter 0 = 5"
    by (simp_all add: example_defs)
  have fresh: "limiter_counts_streak (snd example_queue)"
    by (simp add: limiter_counts_streak_def streak_def example_defs)
  have timers: "list_all timer_or_call ?acts" by auto
  obtain \<sigma> where run: "exec (fst example_queue) ?acts
      \<lparr>shared = snd example_queue, worker = NotStarted, stopper = NotCalled\<rparr> = Some \<sigma>"
    using exec_example_retry by blast
  note a = limiter_reset_on_success_advanced_on_failure[OF q, of "''ns/foo''" ?s
      "snd example_queue" "[]" NotStarted NotCalled]
  note b = limiter_reset_on_success_advanced_on_failure[OF q, of "''ns/foo''" "?s\<lparr>app := 1\<rparr>"
      "snd example_queue" "[]" NotStarted NotCalled]
  note c = limiter_reset_on_success_advanced_on_failure[OF queue_example_queue,
      of "''ns/foo''" ?s "snd example_queue" ?acts NotStarted NotCalled \<sigma>]
  from a ok then_bad have 1: "RateLimiterState (wq (Run_body ?t ''ns/foo'' ?s)) ''ns/foo'' = 0"
    and 4: "scheduled (wq (Run_body ?t ''ns/foo'' (Run_body ?t ''ns/foo'' ?s))) = [(''ns/foo'', 5)]"
    unfolding st by simp_all
  from b bad have 2: "RateLimiterState (wq (Run_body ?t ''ns/foo'' (?s\<lparr>app := 1\<rparr>))) ''ns/foo'' = 3"
    and 3: "scheduled (wq (Run_body ?t ''ns/foo'' (?s\<lparr>app := 1\<rparr>))) = [(''ns/foo'', 20)]"
    unfolding st by simp_all
  from c fresh timers run have 5: "limiter_counts_streak (shared \<sigma>)" by blast
  from 1 2 3 4 5 run show ?thesis by simp
qed

subsection \<open>Shutdown\<close>

lemma workerDone_Enqueue: "workerDone (Enqueue t objs s) = workerDone s"
  by (induction objs arbitrary: s) (auto simp: queue_Add_def split: sum.splits)

lemma calls_Enqueue_mono: "set (calls s) \<subseteq> set (calls (Enqueue t objs s))"
proof (induction objs arbitrary: s)
  case Nil
  show ?case by simp
next
  case (Cons obj objs)
  show ?case
  proof (cases "keyFunc t obj")
    case (Inl e)
    then show ?thesis by simp
  next
    case (Inr key)
    have "set (calls s) \<subseteq> set (calls (queue_Add t key s))" by (auto simp: queue_Add_def)
    with Cons.IH[of "queue_Add t key s"] Inr show ?thesis by auto
  qed
qed

lemma workerDone_Run_body: "workerDone (Run_body t key s) = workerDone s"
  by (simp add: queue_defs split: prod.splits option.splits)

lemma workerDone_queue_Get: "queue_Get t s = Some (r, s1) \<Longrightarrow> workerDone s1 = workerDone s"
  by (auto simp: queue_Get_def split: option.splits)

lemma calls_queue_Get_mono:
  "queue_Get t s = Some ((key, quit), s1) \<Longrightarrow> set (calls s1) = insert (CallGet key quit) (set (calls s))"
  by (auto simp: queue_Get_def split: option.splits)

lemma close_workerDone_Some:
  "close_workerDone s = Some s1 \<Longrightarrow>
     \<not> workerDone s \<and> workerDone s1 \<and> set (calls s1) = insert CloseWorkerDone (set (calls s))"
  by (auto simp: close_workerDone_def split: if_splits)

lemma close_workerDone_None: "close_workerDone s = None \<Longrightarrow> workerDone s"
  by (auto simp: close_workerDone_def split: if_splits)

lemma handshake_worker_step:
  assumes "worker_step t \<sigma> = Some \<sigma>'" "handshake \<sigma>"
  shows "handshake \<sigma>'"
proof (cases "worker \<sigma>")
  case AtGet
  from assms(1) AtGet obtain key quit s1 where
    get: "queue_Get t (shared \<sigma>) = Some ((key, quit), s1)"
    by (auto simp: worker_step_def split: option.splits)
  note d1 = workerDone_queue_Get[OF get] and c1 = calls_queue_Get_mono[OF get]
  show ?thesis
  proof (cases quit)
    case False
    with assms AtGet get d1 c1 show ?thesis
      by (auto simp: worker_step_def handshake_def)
  next
    case True
    show ?thesis
    proof (cases "close_workerDone s1")
      case None
      from close_workerDone_None[OF None] d1 assms(2) AtGet show ?thesis
        by (simp add: handshake_def)
    next
      case (Some s2)
      from close_workerDone_Some[OF Some] assms AtGet get True Some c1 show ?thesis
        by (auto simp: worker_step_def handshake_def)
    qed
  qed
next
  case (InSync key)
  have "set (calls (shared \<sigma>)) \<subseteq> set (calls (Run_body t key (shared \<sigma>)))"
    by (auto simp: calls_Run_body)
  with assms InSync show ?thesis
    by (auto simp: worker_step_def handshake_def workerDone_Run_body)
qed (use assms in \<open>auto simp: worker_step_def\<close>)

lemma handshake_step:
  assumes "step t a \<sigma> = Some \<sigma>'" "handshake \<sigma>"
  shows "handshake \<sigma>'"
proof (cases a)
  case WorkerStep
  with assms show ?thesis by (auto simp: step_def dest: handshake_worker_step)
next
  case (CallEnqueue objs)
  with assms(1) have \<sigma>': "\<sigma>' = \<sigma>\<lparr>shared := Enqueue t objs (shared \<sigma>)\<rparr>"
    by (simp add: step_def)
  have mono: "c \<in> set (calls (shared \<sigma>)) \<Longrightarrow> c \<in> set (calls (shared \<sigma>'))" for c
    using calls_Enqueue_mono[of "shared \<sigma>" t objs] by (auto simp: \<sigma>')
  have same: "workerDone (shared \<sigma>') = workerDone (shared \<sigma>)" "worker \<sigma>' = worker \<sigma>"
    "stopper \<sigma>' = stopper \<sigma>"
    by (simp_all add: \<sigma>' workerDone_Enqueue)
  from assms(2) mono show ?thesis
    unfolding handshake_def same by blast
next
  case CallShutdown
  with assms show ?thesis
    by (auto simp: step_def handshake_def Shutdown_call_def queue_ShutDown_def split: if_splits)
next
  case ShutdownReceive
  with assms show ?thesis
    by (auto simp: step_def handshake_def Shutdown_receive_def split: if_splits)
next
  case (QueueInternal f)
  with assms show ?thesis by (auto simp: step_def handshake_def)
next
  case GoRun
  with assms show ?thesis by (auto simp: step_def handshake_def split: if_splits)
qed

lemma handshake_exec: "exec t acts \<sigma> = Some \<sigma>' \<Longrightarrow> handshake \<sigma> \<Longrightarrow> handshake \<sigma>'"
proof (induction acts arbitrary: \<sigma>)
  case Nil
  then show ?case by simp
next
  case (Cons a acts)
  then obtain \<sigma>1 where "step t a \<sigma> = Some \<sigma>1" "exec t acts \<sigma>1 = Some \<sigma>'"
    by (auto split: option.splits)
  with Cons.IH[of \<sigma>1] handshake_step[of t a \<sigma> \<sigma>1] Cons.prems(2) show ?case by blast
qed

lemma syncs_Enqueue: "syncs (Enqueue t objs s) = syncs s"
  by (induction objs arbitrary: s) (auto simp: syncs_def queue_Add_def split: sum.splits)

lemma exited_step:
  assumes "step t a \<sigma> = Some \<sigma>'" "worker \<sigma> = Exited"
  shows "worker \<sigma>' = Exited \<and> syncs (shared \<sigma>') = syncs (shared \<sigma>)"
proof (cases a)
  case (CallEnqueue objs)
  with assms show ?thesis by (auto simp: step_def syncs_Enqueue)
next
  case CallShutdown
  with assms show ?thesis
    by (auto simp: step_def Shutdown_call_def queue_ShutDown_def syncs_def split: if_splits)
next
  case ShutdownReceive
  with assms show ?thesis
    by (auto simp: step_def Shutdown_receive_def split: if_splits option.splits)
next
  case (QueueInternal f)
  with assms show ?thesis by (auto simp: step_def syncs_def)
qed (use assms in \<open>auto simp: step_def worker_step_def split: if_splits\<close>)

lemma exited_exec:
  "exec t acts \<sigma> = Some \<sigma>' \<Longrightarrow> worker \<sigma> = Exited \<Longrightarrow>
     worker \<sigma>' = Exited \<and> syncs (shared \<sigma>') = syncs (shared \<sigma>)"
proof (induction acts arbitrary: \<sigma>)
  case Nil
  then show ?case by simp
next
  case (Cons a acts)
  then obtain \<sigma>1 where "step t a \<sigma> = Some \<sigma>1" "exec t acts \<sigma>1 = Some \<sigma>'"
    by (auto split: option.splits)
  with Cons.IH[of \<sigma>1] exited_step[of t a \<sigma> \<sigma>1] Cons.prems(2) show ?case by simp
qed

lemma exec_append:
  "exec t (as @ bs) \<sigma> = (case exec t as \<sigma> of None \<Rightarrow> None | Some \<sigma>' \<Rightarrow> exec t bs \<sigma>')"
  by (induction as arbitrary: \<sigma>) (auto split: option.splits)

lemma Run_worker_steps:
  "worker \<sigma> = AtGet \<Longrightarrow>
     \<exists>k. exec t (replicate k WorkerStep) \<sigma> =
       Some (\<sigma>\<lparr>shared := snd (Run n t (shared \<sigma>)),
                worker := worker_of (fst (Run n t (shared \<sigma>)))\<rparr>)"
proof (induction n arbitrary: \<sigma>)
  case 0
  then have "exec t (replicate 0 WorkerStep) \<sigma> =
       Some (\<sigma>\<lparr>shared := snd (Run 0 t (shared \<sigma>)),
                worker := worker_of (fst (Run 0 t (shared \<sigma>)))\<rparr>)" by simp
  then show ?case by blast
next
  case (Suc n)
  show ?case
  proof (cases "queue_Get t (shared \<sigma>)")
    case None
    with Suc.prems have "exec t (replicate 0 WorkerStep) \<sigma> =
       Some (\<sigma>\<lparr>shared := snd (Run (Suc n) t (shared \<sigma>)),
                worker := worker_of (fst (Run (Suc n) t (shared \<sigma>)))\<rparr>)" by simp
    then show ?thesis by blast
  next
    case (Some r)
    obtain key quit s1 where r: "r = ((key, quit), s1)" by (metis surj_pair)
    have get: "queue_Get t (shared \<sigma>) = Some ((key, quit), s1)" using Some r by simp
    show ?thesis
    proof (cases quit)
      case True
      with get Suc.prems have "exec t (replicate (Suc 0) WorkerStep) \<sigma> =
         Some (\<sigma>\<lparr>shared := snd (Run (Suc n) t (shared \<sigma>)),
                  worker := worker_of (fst (Run (Suc n) t (shared \<sigma>)))\<rparr>)"
        by (simp add: step_def worker_step_def split: option.splits)
      then show ?thesis by blast
    next
      case False
      let ?\<sigma>2 = "\<sigma>\<lparr>shared := Run_body t key s1, worker := AtGet\<rparr>"
      from Suc.IH[of ?\<sigma>2] obtain k where
        k: "exec t (replicate k WorkerStep) ?\<sigma>2 =
          Some (?\<sigma>2\<lparr>shared := snd (Run n t (shared ?\<sigma>2)),
                   worker := worker_of (fst (Run n t (shared ?\<sigma>2)))\<rparr>)" by auto
      from get False Suc.prems
      have two: "exec t [WorkerStep, WorkerStep] \<sigma> = Some ?\<sigma>2"
        by (simp add: step_def worker_step_def)
      have "exec t (replicate (Suc (Suc k)) WorkerStep) \<sigma>
          = exec t ([WorkerStep, WorkerStep] @ replicate k WorkerStep) \<sigma>" by simp
      also have "\<dots> = exec t (replicate k WorkerStep) ?\<sigma>2"
        unfolding exec_append two by simp
      also have "\<dots> = Some (\<sigma>\<lparr>shared := snd (Run (Suc n) t (shared \<sigma>)),
                  worker := worker_of (fst (Run (Suc n) t (shared \<sigma>)))\<rparr>)"
        using k get False by simp
      finally show ?thesis by blast
    qed
  qed
qed

lemma Run_refines:
  "\<exists>k. exec t (GoRun # replicate k WorkerStep) (start s0) =
     Some \<lparr>shared = snd (Run n t s0), worker = worker_of (fst (Run n t s0)),
           stopper = NotCalled\<rparr>"
proof -
  let ?\<sigma> = "(start s0)\<lparr>worker := AtGet\<rparr>"
  from Run_worker_steps[of ?\<sigma> t n] obtain k where
    "exec t (replicate k WorkerStep) ?\<sigma> =
       Some (?\<sigma>\<lparr>shared := snd (Run n t (shared ?\<sigma>)),
                worker := worker_of (fst (Run n t (shared ?\<sigma>)))\<rparr>)" by auto
  then have "exec t (GoRun # replicate k WorkerStep) (start s0) =
     Some \<lparr>shared = snd (Run n t s0), worker = worker_of (fst (Run n t s0)),
           stopper = NotCalled\<rparr>"
    by (simp add: step_def start_def)
  then show ?thesis by blast
qed

lemma calls_Enqueue_ext:
  "\<exists>ext. calls (Enqueue t objs s) = calls s @ ext \<and> set ext \<subseteq> range CallAdd"
proof (induction objs arbitrary: s)
  case Nil
  show ?case by simp
next
  case (Cons obj objs)
  show ?case
  proof (cases "keyFunc t obj")
    case (Inl e)
    then show ?thesis by simp
  next
    case (Inr key)
    from Cons.IH[of "queue_Add t key s"] obtain ext where
      "calls (Enqueue t objs (queue_Add t key s)) = calls (queue_Add t key s) @ ext"
      "set ext \<subseteq> range CallAdd" by blast
    with Inr have "calls (Enqueue t (obj # objs) s) = calls s @ (CallAdd key # ext)
        \<and> set (CallAdd key # ext) \<subseteq> range CallAdd"
      by (simp add: queue_Add_def)
    then show ?thesis by blast
  qed
qed

lemma exit_recorded_step:
  assumes "step t a \<sigma> = Some \<sigma>'" "handshake \<sigma>" "exit_recorded s0 \<sigma>"
  shows "exit_recorded s0 \<sigma>'"
proof -
  from assms(3) obtain new where nc: "worker \<sigma> \<noteq> Crashed"
    and new: "calls (shared \<sigma>) = calls s0 @ new"
    and g: "(\<exists>key. CallGet key True \<in> set new) \<longleftrightarrow> worker \<sigma> = Exited"
    and c: "CloseWorkerDone \<in> set new \<longleftrightarrow> worker \<sigma> = Exited"
    unfolding exit_recorded_def by blast
  have ext: "calls (shared \<sigma>') = calls (shared \<sigma>) @ ext \<Longrightarrow> worker \<sigma>' \<noteq> Crashed \<Longrightarrow>
      ((\<exists>key. CallGet key True \<in> set (new @ ext)) \<longleftrightarrow> worker \<sigma>' = Exited) \<Longrightarrow>
      (CloseWorkerDone \<in> set (new @ ext) \<longleftrightarrow> worker \<sigma>' = Exited) \<Longrightarrow> exit_recorded s0 \<sigma>'" for ext
    unfolding exit_recorded_def using new by (metis append.assoc)
  show ?thesis
  proof (cases a)
    case GoRun
    with assms(1) have "calls (shared \<sigma>') = calls (shared \<sigma>) @ []" "worker \<sigma>' = AtGet"
      "worker \<sigma> = NotStarted"
      by (auto simp: step_def split: if_splits)
    with g c show ?thesis by (intro ext[of "[]"]) auto
  next
    case WorkerStep
    with assms(1) have ws: "worker_step t \<sigma> = Some \<sigma>'" by (simp add: step_def)
    show ?thesis
    proof (cases "worker \<sigma>")
      case AtGet
      from ws AtGet obtain key quit s1 where
        get: "queue_Get t (shared \<sigma>) = Some ((key, quit), s1)"
        by (auto simp: worker_step_def split: option.splits)
      note c1 = calls_queue_Get[OF get] and d1 = workerDone_queue_Get[OF get]
      show ?thesis
      proof (cases quit)
        case False
        with ws AtGet get c1 have "calls (shared \<sigma>') = calls (shared \<sigma>) @ [CallGet key False]"
          "worker \<sigma>' = InSync key"
          by (auto simp: worker_step_def)
        with g c AtGet show ?thesis by (intro ext[of "[CallGet key False]"]) auto
      next
        case True
        from assms(2) AtGet d1 have "\<not> workerDone s1" by (simp add: handshake_def)
        then obtain s2 where cl: "close_workerDone s1 = Some s2"
          by (simp add: close_workerDone_def)
        from ws AtGet get True cl c1 calls_close_workerDone[OF cl]
        have "calls (shared \<sigma>') = calls (shared \<sigma>) @ [CallGet key True, CloseWorkerDone]"
          "worker \<sigma>' = Exited"
          by (auto simp: worker_step_def)
        then show ?thesis by (intro ext[of "[CallGet key True, CloseWorkerDone]"]) auto
      qed
    next
      case (InSync key)
      with ws have \<sigma>': "\<sigma>' = \<sigma>\<lparr>shared := Run_body t key (shared \<sigma>), worker := AtGet\<rparr>"
        by (simp add: worker_step_def)
      obtain body where b: "calls (shared \<sigma>') = calls (shared \<sigma>) @ body"
        "\<forall>k. CallGet k True \<notin> set body" "CloseWorkerDone \<notin> set body"
        unfolding \<sigma>' by (cases "fst (sync t key (app (shared \<sigma>)))") (auto simp: calls_Run_body)
      from b g c InSync \<sigma>' show ?thesis by (intro ext[of body]) auto
    qed (use ws in \<open>auto simp: worker_step_def\<close>)
  next
    case (CallEnqueue objs)
    with assms(1) have \<sigma>': "\<sigma>' = \<sigma>\<lparr>shared := Enqueue t objs (shared \<sigma>)\<rparr>"
      by (simp add: step_def)
    from calls_Enqueue_ext[of t objs "shared \<sigma>"] obtain e where
      e: "calls (shared \<sigma>') = calls (shared \<sigma>) @ e" "set e \<subseteq> range CallAdd"
      unfolding \<sigma>' by auto
    from e(2) have "\<forall>k. CallGet k True \<notin> set e" "CloseWorkerDone \<notin> set e" by auto
    with e(1) g c nc \<sigma>' show ?thesis by (intro ext[of e]) auto
  next
    case CallShutdown
    with assms(1) have "calls (shared \<sigma>') = calls (shared \<sigma>) @ [CallShutDown]"
      "worker \<sigma>' = worker \<sigma>"
      by (auto simp: step_def Shutdown_call_def queue_ShutDown_def split: if_splits)
    with g c nc show ?thesis by (intro ext[of "[CallShutDown]"]) auto
  next
    case ShutdownReceive
    with assms(1) have "calls (shared \<sigma>') = calls (shared \<sigma>) @ []" "worker \<sigma>' = worker \<sigma>"
      by (auto simp: step_def Shutdown_receive_def split: if_splits)
    with g c nc show ?thesis by (intro ext[of "[]"]) auto
  next
    case (QueueInternal f)
    with assms(1) have "calls (shared \<sigma>') = calls (shared \<sigma>) @ []" "worker \<sigma>' = worker \<sigma>"
      by (auto simp: step_def)
    with g c nc show ?thesis by (intro ext[of "[]"]) auto
  qed
qed

lemma exit_recorded_exec:
  "exec t acts \<sigma> = Some \<sigma>' \<Longrightarrow> handshake \<sigma> \<Longrightarrow> exit_recorded s0 \<sigma> \<Longrightarrow> exit_recorded s0 \<sigma>'"
proof (induction acts arbitrary: \<sigma>)
  case Nil
  then show ?case by simp
next
  case (Cons a acts)
  then obtain \<sigma>1 where s: "step t a \<sigma> = Some \<sigma>1" "exec t acts \<sigma>1 = Some \<sigma>'"
    by (auto split: option.splits)
  from handshake_step[OF s(1) Cons.prems(2)] exit_recorded_step[OF s(1) Cons.prems(2,3)]
    Cons.IH[OF s(2)] show ?case by blast
qed

lemma syncs_step_prefix:
  assumes "step t a \<sigma> = Some \<sigma>'"
  shows "\<exists>rest. syncs (shared \<sigma>') = syncs (shared \<sigma>) @ rest"
proof (cases a)
  case WorkerStep
  with assms have ws: "worker_step t \<sigma> = Some \<sigma>'" by (simp add: step_def)
  show ?thesis
  proof (cases "worker \<sigma>")
    case AtGet
    from ws AtGet obtain key quit s1 where
      get: "queue_Get t (shared \<sigma>) = Some ((key, quit), s1)"
      by (auto simp: worker_step_def split: option.splits)
    from calls_queue_Get[OF get] have s1: "syncs s1 = syncs (shared \<sigma>)" by (simp add: syncs_def)
    show ?thesis
    proof (cases "quit")
      case False
      with ws AtGet get s1 show ?thesis by (auto simp: worker_step_def)
    next
      case True
      show ?thesis
      proof (cases "close_workerDone s1")
        case None
        with ws AtGet get True s1 show ?thesis by (auto simp: worker_step_def)
      next
        case (Some s2)
        from calls_close_workerDone[OF Some] have "syncs s2 = syncs s1" by (simp add: syncs_def)
        with ws AtGet get True s1 Some show ?thesis by (auto simp: worker_step_def)
      qed
    qed
  next
    case (InSync key)
    with ws show ?thesis by (auto simp: worker_step_def syncs_def calls_Run_body)
  qed (use ws in \<open>auto simp: worker_step_def\<close>)
next
  case (CallEnqueue objs)
  with assms show ?thesis by (auto simp: step_def syncs_Enqueue)
next
  case CallShutdown
  with assms show ?thesis
    by (auto simp: step_def Shutdown_call_def queue_ShutDown_def syncs_def split: if_splits)
next
  case ShutdownReceive
  with assms show ?thesis
    by (auto simp: step_def Shutdown_receive_def split: if_splits option.splits)
next
  case (QueueInternal f)
  with assms show ?thesis by (auto simp: step_def syncs_def)
next
  case GoRun
  with assms show ?thesis by (auto simp: step_def split: if_splits)
qed

lemma syncs_exec_prefix:
  "exec t acts \<sigma> = Some \<sigma>' \<Longrightarrow> \<exists>rest. syncs (shared \<sigma>') = syncs (shared \<sigma>) @ rest"
proof (induction acts arbitrary: \<sigma>)
  case Nil
  then show ?case by simp
next
  case (Cons a acts)
  then obtain \<sigma>1 where s: "step t a \<sigma> = Some \<sigma>1" "exec t acts \<sigma>1 = Some \<sigma>'"
    by (auto split: option.splits)
  from syncs_step_prefix[OF s(1)] Cons.IH[OF s(2)] show ?case by auto
qed

lemma insync_step:
  assumes "step t a \<sigma> = Some \<sigma>'" "worker \<sigma> = InSync key"
  shows "(worker \<sigma>' = InSync key \<and> syncs (shared \<sigma>') = syncs (shared \<sigma>)) \<or>
         (\<exists>e. syncs (shared \<sigma>') = syncs (shared \<sigma>) @ [CallSync key e])"
proof (cases a)
  case WorkerStep
  with assms show ?thesis
    by (cases "fst (sync t key (app (shared \<sigma>)))")
      (auto simp: step_def worker_step_def syncs_def calls_Run_body)
next
  case (CallEnqueue objs)
  with assms show ?thesis by (auto simp: step_def syncs_Enqueue)
next
  case CallShutdown
  with assms show ?thesis
    by (auto simp: step_def Shutdown_call_def queue_ShutDown_def syncs_def split: if_splits)
next
  case ShutdownReceive
  with assms show ?thesis
    by (auto simp: step_def Shutdown_receive_def split: if_splits option.splits)
next
  case (QueueInternal f)
  with assms show ?thesis by (auto simp: step_def syncs_def)
next
  case GoRun
  with assms show ?thesis by (auto simp: step_def split: if_splits)
qed

lemma insync_exec:
  "exec t acts \<sigma> = Some \<sigma>' \<Longrightarrow> worker \<sigma> = InSync key \<Longrightarrow> worker \<sigma>' \<noteq> InSync key \<Longrightarrow>
     \<exists>e rest. syncs (shared \<sigma>') = syncs (shared \<sigma>) @ CallSync key e # rest"
proof (induction acts arbitrary: \<sigma>)
  case Nil
  then show ?case by simp
next
  case (Cons a acts)
  then obtain \<sigma>1 where s: "step t a \<sigma> = Some \<sigma>1" "exec t acts \<sigma>1 = Some \<sigma>'"
    by (auto split: option.splits)
  from insync_step[OF s(1) Cons.prems(2)] show ?case
  proof
    assume "worker \<sigma>1 = InSync key \<and> syncs (shared \<sigma>1) = syncs (shared \<sigma>)"
    with Cons.IH[OF s(2)] Cons.prems(3) show ?thesis by auto
  next
    assume "\<exists>e. syncs (shared \<sigma>1) = syncs (shared \<sigma>) @ [CallSync key e]"
    with syncs_exec_prefix[OF s(2)] show ?thesis by auto
  qed
qed

text \<open>
  C2. \<^verbatim>\<open>Shutdown\<close> is the call of \<^verbatim>\<open>ShutDown\<close> on the queue followed by the
  receive from the channel, which completes exactly when the channel is closed; in the
  system of goroutines a call of \<^verbatim>\<open>Shutdown\<close> is these two steps. The steps of the
  worker are those of \<^verbatim>\<open>Run\<close>: every observed execution of \<^verbatim>\<open>Run\<close> is a schedule
  of the system, so what holds in every reachable state holds of \<^verbatim>\<open>Run\<close>. In every
  state the goroutines can reach from a queue whose channel is open: a \<^verbatim>\<open>Shutdown\<close>
  that is waiting or has returned has called \<^verbatim>\<open>ShutDown\<close> before; the worker has not
  panicked; the channel is closed exactly when the worker has returned, which is exactly
  when a \<^verbatim>\<open>Get\<close> made since the start has reported \<^verbatim>\<open>quit\<close>, and exactly when
  the close of the channel is among the calls made since the start; a call of
  \<^verbatim>\<open>Shutdown\<close> made there gets past its receive exactly when the worker has returned;
  once \<^verbatim>\<open>Shutdown\<close> has returned the worker has returned and whatever happens
  afterwards adds no call of \<^verbatim>\<open>sync\<close>; and when the worker is between the return
  of \<^verbatim>\<open>Get\<close> and the end of the loop body for a key, every schedule that goes on to
  a state where \<^verbatim>\<open>Shutdown\<close> has returned contains the call of \<^verbatim>\<open>sync\<close> for that
  key. For \<^verbatim>\<open>Run\<close> itself: it returns exactly when it has closed the channel, which
  is exactly when \<^verbatim>\<open>Get\<close> has reported \<^verbatim>\<open>quit\<close>, and it does not panic.
\<close>

theorem Shutdown_returns_after_worker_exit:
  assumes "exec t acts (start s0) = Some \<sigma>" and "\<not> workerDone s0"
  shows "(stopper \<sigma> \<noteq> NotCalled \<longrightarrow> CallShutDown \<in> set (calls (shared \<sigma>)))
     \<and> (workerDone (shared \<sigma>) \<longleftrightarrow> worker \<sigma> = Exited)
     \<and> (Shutdown t (shared \<sigma>) \<noteq> None \<longleftrightarrow> worker \<sigma> = Exited)
     \<and> worker \<sigma> \<noteq> Crashed
     \<and> (\<exists>new. calls (shared \<sigma>) = calls s0 @ new \<and>
           ((\<exists>key. CallGet key True \<in> set new) \<longleftrightarrow> worker \<sigma> = Exited) \<and>
           (CloseWorkerDone \<in> set new \<longleftrightarrow> worker \<sigma> = Exited))
     \<and> (stopper \<sigma> = ShutdownReturned \<longrightarrow>
          worker \<sigma> = Exited \<and>
          (\<forall>acts' \<sigma>'. exec t acts' \<sigma> = Some \<sigma>' \<longrightarrow> syncs (shared \<sigma>') = syncs (shared \<sigma>)))
     \<and> (\<forall>key acts' \<sigma>'. worker \<sigma> = InSync key \<and> exec t acts' \<sigma> = Some \<sigma>' \<and>
            stopper \<sigma>' = ShutdownReturned \<longrightarrow>
          (\<exists>e rest. syncs (shared \<sigma>') = syncs (shared \<sigma>) @ CallSync key e # rest))
     \<and> Shutdown t s =
          (if workerDone s
           then Some (s\<lparr>wq := ShutDown (queue t) (wq s), calls := calls s @ [CallShutDown]\<rparr>)
           else None)
     \<and> (stopper \<sigma> \<noteq> Receiving \<longrightarrow>
          exec t [CallShutdown, ShutdownReceive] \<sigma> =
            map_option (\<lambda>s'. \<sigma>\<lparr>shared := s', stopper := ShutdownReturned\<rparr>)
              (Shutdown t (shared \<sigma>)))
     \<and> (\<exists>k. exec t (GoRun # replicate k WorkerStep) (start s0) =
            Some \<lparr>shared = snd (Run n t s0), worker = worker_of (fst (Run n t s0)),
                  stopper = NotCalled\<rparr>)
     \<and> (fst (Run n t s0) = Returned \<longleftrightarrow> workerDone (snd (Run n t s0)))
     \<and> fst (Run n t s0) \<noteq> Panicked
     \<and> (\<exists>new. calls (snd (Run n t s0)) = calls s0 @ new \<and>
           ((\<exists>key. CallGet key True \<in> set new) \<longleftrightarrow> fst (Run n t s0) = Returned) \<and>
           (CloseWorkerDone \<in> set new \<longleftrightarrow> fst (Run n t s0) = Returned))"
proof -
  have h0: "handshake (start s0)" using assms(2) by (simp add: handshake_def start_def)
  have e0: "exit_recorded s0 (start s0)" by (simp add: exit_recorded_def start_def)
  from handshake_exec[OF assms(1) h0] have h: "handshake \<sigma>" .
  from exit_recorded_exec[OF assms(1) h0 e0] have e: "exit_recorded s0 \<sigma>" .
  have a: "stopper \<sigma> \<noteq> NotCalled \<longrightarrow> CallShutDown \<in> set (calls (shared \<sigma>))"
    and b: "workerDone (shared \<sigma>) \<longleftrightarrow> worker \<sigma> = Exited"
    and r: "stopper \<sigma> = ShutdownReturned \<longrightarrow> worker \<sigma> = Exited"
    using h by (simp_all add: handshake_def)
  have sd: "Shutdown t s =
          (if workerDone s
           then Some (s\<lparr>wq := ShutDown (queue t) (wq s), calls := calls s @ [CallShutDown]\<rparr>)
           else None)" for s :: "('a, 'b, 'c) world"
    by (simp add: Shutdown_def Shutdown_receive_def Shutdown_call_def queue_ShutDown_def)
  have c: "Shutdown t (shared \<sigma>) \<noteq> None \<longleftrightarrow> worker \<sigma> = Exited"
    using b by (simp add: sd)
  have d: "worker \<sigma> \<noteq> Crashed"
    and d': "\<exists>new. calls (shared \<sigma>) = calls s0 @ new \<and>
           ((\<exists>key. CallGet key True \<in> set new) \<longleftrightarrow> worker \<sigma> = Exited) \<and>
           (CloseWorkerDone \<in> set new \<longleftrightarrow> worker \<sigma> = Exited)"
    using e unfolding exit_recorded_def by blast+
  have f: "stopper \<sigma> = ShutdownReturned \<longrightarrow>
          worker \<sigma> = Exited \<and>
          (\<forall>acts' \<sigma>'. exec t acts' \<sigma> = Some \<sigma>' \<longrightarrow> syncs (shared \<sigma>') = syncs (shared \<sigma>))"
    using r exited_exec[of t _ \<sigma>] by blast
  have g: "\<forall>key acts' \<sigma>'. worker \<sigma> = InSync key \<and> exec t acts' \<sigma> = Some \<sigma>' \<and>
            stopper \<sigma>' = ShutdownReturned \<longrightarrow>
          (\<exists>e rest. syncs (shared \<sigma>') = syncs (shared \<sigma>) @ CallSync key e # rest)"
  proof (intro allI impI)
    fix key acts' \<sigma>'
    assume p: "worker \<sigma> = InSync key \<and> exec t acts' \<sigma> = Some \<sigma>' \<and>
            stopper \<sigma>' = ShutdownReturned"
    then have ex: "exec t acts' \<sigma> = Some \<sigma>'" by simp
    from handshake_exec[OF ex h] p have "worker \<sigma>' = Exited" by (simp add: handshake_def)
    then have "worker \<sigma>' \<noteq> InSync key" by simp
    from insync_exec[OF ex _ this] p
    show "\<exists>e rest. syncs (shared \<sigma>') = syncs (shared \<sigma>) @ CallSync key e # rest" by blast
  qed
  have i: "stopper \<sigma> \<noteq> Receiving \<longrightarrow>
          exec t [CallShutdown, ShutdownReceive] \<sigma> =
            map_option (\<lambda>s'. \<sigma>\<lparr>shared := s', stopper := ShutdownReturned\<rparr>)
              (Shutdown t (shared \<sigma>))"
    by (simp add: step_def Shutdown_def Shutdown_receive_def)
  obtain k where k: "exec t (GoRun # replicate k WorkerStep) (start s0) =
            Some \<lparr>shared = snd (Run n t s0), worker = worker_of (fst (Run n t s0)),
                  stopper = NotCalled\<rparr>" (is "_ = Some ?\<rho>")
    using Run_refines by blast
  from handshake_exec[OF k h0] have hr: "handshake ?\<rho>" .
  from exit_recorded_exec[OF k h0 e0] have er: "exit_recorded s0 ?\<rho>" .
  have w: "worker_of (fst (Run n t s0)) = Exited \<longleftrightarrow> fst (Run n t s0) = Returned"
    "worker_of (fst (Run n t s0)) = Crashed \<longleftrightarrow> fst (Run n t s0) = Panicked"
    by (cases "fst (Run n t s0)"; simp)+
  from hr w have j1: "fst (Run n t s0) = Returned \<longleftrightarrow> workerDone (snd (Run n t s0))"
    by (simp add: handshake_def)
  from er w have j2: "fst (Run n t s0) \<noteq> Panicked"
    and j3: "\<exists>new. calls (snd (Run n t s0)) = calls s0 @ new \<and>
           ((\<exists>key. CallGet key True \<in> set new) \<longleftrightarrow> fst (Run n t s0) = Returned) \<and>
           (CloseWorkerDone \<in> set new \<longleftrightarrow> fst (Run n t s0) = Returned)"
    by (simp_all add: exit_recorded_def)
  from k have k': "\<exists>k. exec t (GoRun # replicate k WorkerStep) (start s0) =
            Some \<lparr>shared = snd (Run n t s0), worker = worker_of (fst (Run n t s0)),
                  stopper = NotCalled\<rparr>" by blast
  from a b c d d' f g sd[of s] i k' j1 j2 j3 show ?thesis by (intro conjI)
qed

lemma exec_example_shutdown: "exec (fst example_queue)
      [GoRun, CallEnqueue [Object ''ns'' ''foo''], WorkerStep, CallShutdown, WorkerStep,
       WorkerStep, ShutdownReceive] (start (snd example_queue)) \<noteq> None"
  by (simp add: example_defs queue_defs wq_defs step_defs)

lemma exec_example_in_sync: "exec (fst example_queue)
      [GoRun, CallEnqueue [Object ''ns'' ''foo''], WorkerStep, CallShutdown]
      (start (snd example_queue)) \<noteq> None"
  by (simp add: example_defs queue_defs wq_defs step_defs)

theorem Shutdown_returns_after_worker_exit_witness:
  "\<not> workerDone (snd example_queue)
   \<and> (\<exists>\<sigma>. exec (fst example_queue)
          [GoRun, CallEnqueue [Object ''ns'' ''foo''], WorkerStep, CallShutdown, WorkerStep,
           WorkerStep, ShutdownReceive] (start (snd example_queue)) = Some \<sigma>
        \<and> stopper \<sigma> = ShutdownReturned \<and> worker \<sigma> = Exited \<and> workerDone (shared \<sigma>)
        \<and> Shutdown (fst example_queue) (shared \<sigma>) \<noteq> None
        \<and> CallShutDown \<in> set (calls (shared \<sigma>))
        \<and> (\<exists>new. calls (shared \<sigma>) = calls (snd example_queue) @ new \<and>
              (\<exists>key. CallGet key True \<in> set new) \<and> CloseWorkerDone \<in> set new)
        \<and> (\<exists>\<sigma>'. exec (fst example_queue) [CallEnqueue [Object ''ns'' ''foo'']] \<sigma> = Some \<sigma>'
              \<and> syncs (shared \<sigma>') = syncs (shared \<sigma>))
        \<and> stopper \<sigma> \<noteq> Receiving
        \<and> exec (fst example_queue) [CallShutdown, ShutdownReceive] \<sigma> =
            map_option (\<lambda>s'. \<sigma>\<lparr>shared := s', stopper := ShutdownReturned\<rparr>)
              (Shutdown (fst example_queue) (shared \<sigma>)))
   \<and> (\<exists>\<sigma> \<sigma>'. exec (fst example_queue)
          [GoRun, CallEnqueue [Object ''ns'' ''foo''], WorkerStep, CallShutdown]
          (start (snd example_queue)) = Some \<sigma>
        \<and> worker \<sigma> = InSync ''ns/foo'' \<and> stopper \<sigma> = Receiving
        \<and> \<not> workerDone (shared \<sigma>) \<and> Shutdown (fst example_queue) (shared \<sigma>) = None
        \<and> exec (fst example_queue) [WorkerStep, WorkerStep, ShutdownReceive] \<sigma> = Some \<sigma>'
        \<and> stopper \<sigma>' = ShutdownReturned
        \<and> (\<exists>e rest. syncs (shared \<sigma>') = syncs (shared \<sigma>) @ CallSync ''ns/foo'' e # rest))
   \<and> Shutdown (fst example_queue) (snd example_queue) = None
   \<and> fst (Run (Suc (Suc 0)) (fst example_queue) (snd example_queue)) = WaitingInGet
   \<and> \<not> workerDone (snd (Run (Suc (Suc 0)) (fst example_queue) (snd example_queue)))
   \<and> \<not> workerDone (Shutdown_call (fst example_queue) (snd example_queue))
   \<and> exec (fst example_queue) [] (start (Shutdown_call (fst example_queue) (snd example_queue)))
       = Some (start (Shutdown_call (fst example_queue) (snd example_queue)))
   \<and> fst (Run (Suc (Suc 0)) (fst example_queue)
        (Shutdown_call (fst example_queue) (snd example_queue))) = Returned
   \<and> workerDone (snd (Run (Suc (Suc 0)) (fst example_queue)
        (Shutdown_call (fst example_queue) (snd example_queue))))
   \<and> (\<exists>k. exec (fst example_queue) (GoRun # replicate k WorkerStep)
          (start (Shutdown_call (fst example_queue) (snd example_queue))) =
        Some \<lparr>shared = snd (Run (Suc (Suc 0)) (fst example_queue)
                 (Shutdown_call (fst example_queue) (snd example_queue))),
              worker = Exited, stopper = NotCalled\<rparr>)
   \<and> (\<exists>new. calls (snd (Run (Suc (Suc 0)) (fst example_queue)
          (Shutdown_call (fst example_queue) (snd example_queue))))
        = calls (Shutdown_call (fst example_queue) (snd example_queue)) @ new \<and>
        (\<exists>key. CallGet key True \<in> set new) \<and> CloseWorkerDone \<in> set new)"
proof -
  let ?t = "fst example_queue"
  let ?s0 = "snd example_queue"
  let ?acts = "[GoRun, CallEnqueue [Object ''ns'' ''foo''], WorkerStep, CallShutdown, WorkerStep,
           WorkerStep, ShutdownReceive]"
  let ?pre = "[GoRun, CallEnqueue [Object ''ns'' ''foo''], WorkerStep, CallShutdown]"
  let ?s1 = "Shutdown_call ?t ?s0"
  have open_chan: "\<not> workerDone ?s0" by (simp add: example_defs)
  have blocked: "Shutdown ?t ?s0 = None"
    by (simp add: Shutdown_def Shutdown_receive_def Shutdown_call_def queue_ShutDown_def
        example_defs)
  obtain \<sigma> where run: "exec ?t ?acts (start ?s0) = Some \<sigma>"
    using exec_example_shutdown by blast
  have ret: "stopper \<sigma> = ShutdownReturned"
    using run by (auto simp: example_defs queue_defs wq_defs step_defs)
  obtain \<sigma>2 where more: "exec ?t [CallEnqueue [Object ''ns'' ''foo'']] \<sigma> = Some \<sigma>2"
    by (simp add: step_def)
  note th = Shutdown_returns_after_worker_exit[OF run open_chan, where n = 0 and s = ?s0]
  from th ret have ex: "worker \<sigma> = Exited" by blast
  from th ex have wd: "workerDone (shared \<sigma>)" and sh: "Shutdown ?t (shared \<sigma>) \<noteq> None" by blast+
  from th ret have cs: "CallShutDown \<in> set (calls (shared \<sigma>))"
    by (metis stopper_at.distinct(3))
  from th ex have rec: "\<exists>new. calls (shared \<sigma>) = calls ?s0 @ new \<and>
              (\<exists>key. CallGet key True \<in> set new) \<and> CloseWorkerDone \<in> set new" by blast
  from th ret more have same: "syncs (shared \<sigma>2) = syncs (shared \<sigma>)" by blast
  from ret have nr: "stopper \<sigma> \<noteq> Receiving" by simp
  from th nr have again: "exec ?t [CallShutdown, ShutdownReceive] \<sigma> =
            map_option (\<lambda>s'. \<sigma>\<lparr>shared := s', stopper := ShutdownReturned\<rparr>)
              (Shutdown ?t (shared \<sigma>))" by blast
  from run ret ex wd sh cs rec more same nr again
  have part1: "\<exists>\<sigma>. exec ?t ?acts (start ?s0) = Some \<sigma>
        \<and> stopper \<sigma> = ShutdownReturned \<and> worker \<sigma> = Exited \<and> workerDone (shared \<sigma>)
        \<and> Shutdown ?t (shared \<sigma>) \<noteq> None
        \<and> CallShutDown \<in> set (calls (shared \<sigma>))
        \<and> (\<exists>new. calls (shared \<sigma>) = calls ?s0 @ new \<and>
              (\<exists>key. CallGet key True \<in> set new) \<and> CloseWorkerDone \<in> set new)
        \<and> (\<exists>\<sigma>'. exec ?t [CallEnqueue [Object ''ns'' ''foo'']] \<sigma> = Some \<sigma>'
              \<and> syncs (shared \<sigma>') = syncs (shared \<sigma>))
        \<and> stopper \<sigma> \<noteq> Receiving
        \<and> exec ?t [CallShutdown, ShutdownReceive] \<sigma> =
            map_option (\<lambda>s'. \<sigma>\<lparr>shared := s', stopper := ShutdownReturned\<rparr>)
              (Shutdown ?t (shared \<sigma>))"
    by blast
  obtain \<rho> where pre: "exec ?t ?pre (start ?s0) = Some \<rho>"
    using exec_example_in_sync by blast
  have at: "worker \<rho> = InSync ''ns/foo''" and rc: "stopper \<rho> = Receiving"
    using pre by (auto simp: example_defs queue_defs wq_defs step_defs)
  have "exec ?t (?pre @ [WorkerStep, WorkerStep, ShutdownReceive]) (start ?s0) = Some \<sigma>"
    using run by simp
  then have post: "exec ?t [WorkerStep, WorkerStep, ShutdownReceive] \<rho> = Some \<sigma>"
    unfolding exec_append pre by simp
  note th2 = Shutdown_returns_after_worker_exit[OF pre open_chan, where n = 0 and s = ?s0]
  from th2 at post ret
  have compl: "\<exists>e rest. syncs (shared \<sigma>) = syncs (shared \<rho>) @ CallSync ''ns/foo'' e # rest"
    by blast
  from th2 at have nd: "\<not> workerDone (shared \<rho>)" and bl: "Shutdown ?t (shared \<rho>) = None"
    by auto
  from pre at rc nd bl post ret compl
  have part2: "\<exists>\<sigma> \<sigma>'. exec ?t ?pre (start ?s0) = Some \<sigma>
        \<and> worker \<sigma> = InSync ''ns/foo'' \<and> stopper \<sigma> = Receiving
        \<and> \<not> workerDone (shared \<sigma>) \<and> Shutdown ?t (shared \<sigma>) = None
        \<and> exec ?t [WorkerStep, WorkerStep, ShutdownReceive] \<sigma> = Some \<sigma>'
        \<and> stopper \<sigma>' = ShutdownReturned
        \<and> (\<exists>e rest. syncs (shared \<sigma>') = syncs (shared \<sigma>) @ CallSync ''ns/foo'' e # rest)"
    by blast
  have idle: "fst (Run (Suc (Suc 0)) ?t ?s0) = WaitingInGet"
    by (simp add: example_defs queue_defs wq_defs)
  have e0: "exec ?t [] (start ?s0) = Some (start ?s0)" by simp
  note th3 = Shutdown_returns_after_worker_exit[OF e0 open_chan, where n = "Suc (Suc 0)"
      and s = ?s0]
  from th3 idle have nd0: "\<not> workerDone (snd (Run (Suc (Suc 0)) ?t ?s0))" by auto
  have open1: "\<not> workerDone ?s1"
    by (simp add: Shutdown_call_def queue_ShutDown_def example_defs)
  have e1: "exec ?t [] (start ?s1) = Some (start ?s1)" by simp
  have quit: "fst (Run (Suc (Suc 0)) ?t ?s1) = Returned"
    by (simp add: Shutdown_call_def example_defs queue_defs wq_defs)
  note th4 = Shutdown_returns_after_worker_exit[OF e1 open1, where n = "Suc (Suc 0)"
      and s = ?s0]
  from th4 quit have wd1: "workerDone (snd (Run (Suc (Suc 0)) ?t ?s1))" by blast
  from th4 have "\<exists>k. exec ?t (GoRun # replicate k WorkerStep) (start ?s1) =
        Some \<lparr>shared = snd (Run (Suc (Suc 0)) ?t ?s1),
              worker = worker_of (fst (Run (Suc (Suc 0)) ?t ?s1)), stopper = NotCalled\<rparr>"
    by blast
  then have ref: "\<exists>k. exec ?t (GoRun # replicate k WorkerStep) (start ?s1) =
        Some \<lparr>shared = snd (Run (Suc (Suc 0)) ?t ?s1), worker = Exited, stopper = NotCalled\<rparr>"
    unfolding quit by simp
  from th4 quit have rec1: "\<exists>new. calls (snd (Run (Suc (Suc 0)) ?t ?s1)) = calls ?s1 @ new \<and>
        (\<exists>key. CallGet key True \<in> set new) \<and> CloseWorkerDone \<in> set new" by blast
  from open_chan part1 part2 blocked idle nd0 open1 e1 quit wd1 ref rec1
  show ?thesis by (intro conjI)
qed

section \<open>Properties of the model of services\<close>

text \<open>
  C8. \<^verbatim>\<open>createVarName\<close> returns the empty string on the empty string; on any other
  string it returns the string whose first rune is the lower-case form of the first
  rune of the argument and whose other runes are those of the argument; the number of
  runes is unchanged; and applying it twice is applying it once, given that
  \<^verbatim>\<open>unicode.ToLower\<close> sends the lower-case form of the first rune to itself.
\<close>

theorem createVarName_lowers_first_rune:
  "createVarName lib [] = []
   \<and> (s \<noteq> [] \<longrightarrow> createVarName lib s = ToLower lib (hd s) # tl s)
   \<and> length (createVarName lib s) = length s
   \<and> (ToLower lib (ToLower lib (hd s)) = ToLower lib (hd s) \<longrightarrow>
        createVarName lib (createVarName lib s) = createVarName lib s)"
  by (cases s) (simp_all add: createVarName_def)

theorem createVarName_lowers_first_rune_witness:
  "str ''BackendService'' \<noteq> []
   \<and> ToLower example_lib (ToLower example_lib (hd (str ''BackendService'')))
       = ToLower example_lib (hd (str ''BackendService''))
   \<and> createVarName example_lib [] = []
   \<and> createVarName example_lib (str ''BackendService'') = str ''backendService''
   \<and> length (createVarName example_lib (str ''BackendService'')) = length (str ''BackendService'')
   \<and> createVarName example_lib (createVarName example_lib (str ''BackendService''))
       = createVarName example_lib (str ''BackendService'')"
proof -
  have ne: "str ''BackendService'' \<noteq> []" by (simp add: str_def)
  have idem: "ToLower example_lib (ToLower example_lib (hd (str ''BackendService'')))
       = ToLower example_lib (hd (str ''BackendService''))"
    by (simp add: example_lib_def str_def)
  have low: "ToLower example_lib (hd (str ''BackendService'')) # tl (str ''BackendService'')
      = str ''backendService''"
    by (simp add: example_lib_def str_def)
  note th = createVarName_lowers_first_rune[of example_lib "str ''BackendService''"]
  from th have e: "createVarName example_lib [] = []" by blast
  from th ne low have c: "createVarName example_lib (str ''BackendService'') = str ''backendService''"
    by metis
  from th have l: "length (createVarName example_lib (str ''BackendService''))
      = length (str ''BackendService'')" by blast
  from th idem have i: "createVarName example_lib (createVarName example_lib (str ''BackendService''))
       = createVarName example_lib (str ''BackendService'')" by blast
  from ne idem e c l i show ?thesis by blast
qed

text \<open>
  C10. \<^verbatim>\<open>GetCloudProviderName\<close> returns the name stored in \<^verbatim>\<open>MainServices\<close> under
  the receiver's \<^verbatim>\<open>Name\<close> when \<^verbatim>\<open>IsMainService\<close> holds, and panics when it does
  not; it returns exactly when \<^verbatim>\<open>IsMainService\<close> holds.
\<close>

theorem GetCloudProviderName_iff_IsMainService:
  "(IsMainService ms apiService \<longrightarrow>
      (\<exists>result. map_of ms (Name apiService) = Some result \<and>
         GetCloudProviderName ms apiService = Inr result))
   \<and> (\<not> IsMainService ms apiService \<longrightarrow>
        map_of ms (Name apiService) = None \<and>
        GetCloudProviderName ms apiService = Inl (NotPresentInMap (Name apiService)))
   \<and> ((\<exists>result. GetCloudProviderName ms apiService = Inr result) \<longleftrightarrow> IsMainService ms apiService)"
  by (auto simp: IsMainService_def GetCloudProviderName_def split: option.splits)

theorem GetCloudProviderName_iff_IsMainService_witness:
  "IsMainService MainServices (ApiService (str ''BackendService'') [] False [] [] [])
   \<and> GetCloudProviderName MainServices (ApiService (str ''BackendService'') [] False [] [] [])
       = Inr (str ''BackendServices'')
   \<and> \<not> IsMainService MainServices (ApiService (str ''UrlMap'') [] False [] [] [])
   \<and> GetCloudProviderName MainServices (ApiService (str ''UrlMap'') [] False [] [] [])
       = Inl (NotPresentInMap (str ''UrlMap''))"
proof -
  let ?b = "ApiService (str ''BackendService'') [] False [] [] []"
  let ?u = "ApiService (str ''UrlMap'') [] False [] [] []"
  have b: "IsMainService MainServices ?b"
    and u: "\<not> IsMainService MainServices ?u"
    and m: "map_of MainServices (Name ?b) = Some (str ''BackendServices'')"
    by (simp_all add: IsMainService_def MainServices_def str_def)
  from GetCloudProviderName_iff_IsMainService[of MainServices ?b]
    GetCloudProviderName_iff_IsMainService[of MainServices ?u] b u m
  show ?thesis by auto
qed

subsection \<open>populateApiServices\<close>

lemma mset_insert_back: "mset (insert_back lessFn x ys) = add_mset x (mset ys)"
  by (induction ys) auto

lemma set_insert_back: "set (insert_back lessFn x ys) = insert x (set ys)"
  by (induction ys) auto

lemma descending_insert_back:
  "sorted_wrt (\<lambda>a b. Name b \<le> Name a) ys \<Longrightarrow>
     sorted_wrt (\<lambda>a b. Name b \<le> Name a) (insert_back by_Name x ys)"
proof (induction ys)
  case Nil
  show ?case by simp
next
  case (Cons y ys)
  show ?case
  proof (cases "by_Name x y")
    case True
    with Cons show ?thesis by (auto simp: set_insert_back by_Name_def)
  next
    case False
    then have "Name y \<le> Name x" by (simp add: by_Name_def)
    with Cons.prems have "\<forall>z\<in>set (y # ys). Name z \<le> Name x" by auto
    with Cons.prems False show ?thesis by simp
  qed
qed

lemma insertion_fold:
  "sorted_wrt (\<lambda>a b. Name b \<le> Name a) acc \<Longrightarrow>
     sorted_wrt (\<lambda>a b. Name b \<le> Name a) (foldl (\<lambda>sorted x. insert_back by_Name x sorted) acc xs)
     \<and> mset (foldl (\<lambda>sorted x. insert_back by_Name x sorted) acc xs) = mset acc + mset xs"
proof (induction xs arbitrary: acc)
  case Nil
  then show ?case by simp
next
  case (Cons x xs)
  from Cons.IH[OF descending_insert_back[OF Cons.prems, of x]] show ?case
    by (simp add: mset_insert_back)
qed

lemma insertion_sort_contract:
  "mset (insertion_sort by_Name xs) = mset xs \<and> sorted_by_Name (insertion_sort by_Name xs)"
proof -
  from insertion_fold[of "[]" xs]
  have d: "sorted_wrt (\<lambda>a b. Name b \<le> Name a) (foldl (\<lambda>sorted x. insert_back by_Name x sorted) [] xs)"
    and m: "mset (foldl (\<lambda>sorted x. insert_back by_Name x sorted) [] xs) = mset xs"
    by simp_all
  from d have "sorted_wrt (\<lambda>a b. Name a \<le> Name b)
      (rev (foldl (\<lambda>sorted x. insert_back by_Name x sorted) [] xs))"
    by (simp add: sorted_wrt_rev)
  with m show ?thesis by (simp add: insertion_sort_def sorted_by_Name_def)
qed

lemma example_lib_contract: "sort_Slice_contract example_lib"
  by (simp add: sort_Slice_contract_def example_lib_def insertion_sort_contract)

lemma populate_loop_Fields:
  "populate_loop lib result typesQueue completed all = Inr out \<Longrightarrow> sort_Slice_contract lib \<Longrightarrow>
     (\<forall>s\<in>set all. sorted_by_Name (Fields s)) \<Longrightarrow> (\<forall>s\<in>set out. sorted_by_Name (Fields s))"
proof (induction lib result typesQueue completed all rule: populate_loop.induct)
  case (1 lib result completed all)
  then show ?case by simp
next
  case (2 lib result typeName typesQueue completed all)
  show ?case
  proof (cases "typeName \<in> completed")
    case True
    with 2 show ?thesis by simp
  next
    case False
    with "2.prems"(1) obtain flds subTypes typesQueue' where
      p: "properties_of result typeName = Inr flds"
      and r: "range_fields lib flds typesQueue [] = Inr (subTypes, typesQueue')"
      and rest: "populate_loop lib result typesQueue' (insert typeName completed)
          (all @ [ApiService typeName [] False [] (createVarName lib typeName)
                    (sort_Slice lib by_Name subTypes)]) = Inr out"
      by (auto split: sum.splits)
    have "sorted_by_Name (sort_Slice lib by_Name subTypes)"
      using "2.prems"(2) by (simp add: sort_Slice_contract_def)
    with "2.prems"(3) have "\<forall>s\<in>set (all @ [ApiService typeName [] False [] (createVarName lib typeName)
                    (sort_Slice lib by_Name subTypes)]). sorted_by_Name (Fields s)"
      by simp
    from "2.IH"(2)[OF False p r refl rest "2.prems"(2) this] show ?thesis .
  qed
qed

lemma finish_queue:
  "finish field propType (q @ refs) override err =
     map_sum id (\<lambda>(ty, refs, ov, err). (ty, q @ refs, ov, err)) (finish field propType refs override err)"
  by (simp add: finish_def)

lemma finish_Inr: "\<exists>r. finish field propType q override err = Inr r"
  by (simp add: finish_def)

lemma getGoType_queue:
  "getGoType val q =
     map_sum id (\<lambda>(ty, refs, ov, err). (ty, q @ refs, ov, err)) (getGoType val [])"
proof (induction val q rule: getGoType.induct)
  case (1 field typesQueue)
  show ?case
  proof (cases "map_of field (str ''$ref'')")
    case (Some ref)
    then show ?thesis
      using finish_queue[of field _ typesQueue "[_]"]
      by (cases ref) (simp_all add: finish_def)
  next
    case None
    show ?thesis
    proof (cases "index field (str ''type'') = JString (str ''array'')")
      case True
      show ?thesis
      proof (cases "map_of field (str ''items'')")
        case N: None
        with None True show ?thesis by simp
      next
        case (Some items)
        note IH = "1.IH"(1)[OF None True Some]
        show ?thesis
          using None True Some
          apply (simp del: getGoType.simps add: getGoType.simps(1)[of field])
          apply (subst IH)
          apply (cases "getGoType items []")
           apply (auto simp: finish_def)
          done
      qed
    next
      case False
      note notarray = False
      show ?thesis
      proof (cases "index field (str ''type'') = JString (str ''object'')")
        case True
        show ?thesis
        proof (cases "map_of field (str ''additionalProperties'')")
          case N: None
          with None notarray True show ?thesis by (simp add: finish_def)
        next
          case (Some addlProps)
          note IH = "1.IH"(2)[OF None notarray True Some]
          show ?thesis
            using None notarray True Some
            apply (simp del: getGoType.simps add: getGoType.simps(1)[of field])
            apply (subst IH)
            apply (cases "getGoType addlProps []")
             apply (auto simp: finish_def)
            done
        qed
      next
        case False
        with None notarray show ?thesis
          by (auto simp: finish_def split: option.splits json.splits)
      qed
    qed
  qed
qed simp_all

lemma range_fields_None:
  "field_of lib (k, v) = None \<Longrightarrow> \<exists>p. range_fields lib ((k, v) # rest) q subTypes = Inl p"
  by (subst range_fields.simps, subst getGoType_queue)
    (auto simp: field_of_def split: sum.splits option.splits)

lemma range_fields_Some:
  "field_of lib (k, v) = Some (sub, refs) \<Longrightarrow>
     range_fields lib ((k, v) # rest) q subTypes
       = range_fields lib rest (q @ refs) (subTypes @ [sub])"
  by (subst range_fields.simps, subst getGoType_queue)
    (auto simp: field_of_def split: sum.splits option.splits)

lemma range_fields_entries:
  "(\<forall>e\<in>set flds. field_of lib e \<noteq> None) \<Longrightarrow>
     range_fields lib flds q subTypes =
       Inr (subTypes @ map (\<lambda>e. fst (the (field_of lib e))) flds,
            q @ concat (map (\<lambda>e. snd (the (field_of lib e))) flds))"
proof (induction flds arbitrary: q subTypes)
  case Nil
  show ?case by simp
next
  case (Cons e flds)
  obtain k v where e: "e = (k, v)" by (cases e)
  from Cons.prems obtain sub refs where f: "field_of lib (k, v) = Some (sub, refs)"
    by (auto simp: e)
  from Cons.prems have "\<forall>e\<in>set flds. field_of lib e \<noteq> None" by simp
  from Cons.IH[OF this] f show ?case
    by (simp add: e range_fields_Some del: range_fields.simps)
qed

lemma range_fields_fails:
  "\<exists>e\<in>set flds. field_of lib e = None \<Longrightarrow> \<exists>p. range_fields lib flds q subTypes = Inl p"
proof (induction flds arbitrary: q subTypes)
  case Nil
  then show ?case by simp
next
  case (Cons e flds)
  obtain k v where e: "e = (k, v)" by (cases e)
  show ?case
  proof (cases "field_of lib (k, v)")
    case None
    then show ?thesis unfolding e by (rule range_fields_None)
  next
    case (Some a)
    obtain sub refs where a: "a = (sub, refs)" by (cases a)
    from Some Cons.prems have "\<exists>e\<in>set flds. field_of lib e = None" by (auto simp: e)
    from Cons.IH[OF this] Some a show ?thesis
      by (simp add: e range_fields_Some del: range_fields.simps)
  qed
qed

lemma node_cases:
  "node lib result t =
     (case properties_of result t of
        Inl p \<Rightarrow> None
      | Inr flds \<Rightarrow>
          if \<forall>e\<in>set flds. field_of lib e \<noteq> None then
            Some (ApiService t [] False [] (createVarName lib t)
                    (sort_Slice lib by_Name (map (\<lambda>e. fst (the (field_of lib e))) flds)),
                  concat (map (\<lambda>e. snd (the (field_of lib e))) flds))
          else None)"
proof (cases "properties_of result t")
  case (Inl p)
  then show ?thesis by (simp add: node_def)
next
  case (Inr flds)
  show ?thesis
  proof (cases "\<forall>e\<in>set flds. field_of lib e \<noteq> None")
    case True
    from range_fields_entries[OF True, of "[]" "[]"] Inr True show ?thesis
      by (simp add: node_def)
  next
    case False
    then have "\<exists>e\<in>set flds. field_of lib e = None" by (meson not_Some_eq)
    from range_fields_fails[OF this, of "[]" "[]"] Inr False show ?thesis
      by (auto simp: node_def)
  qed
qed

lemma Name_node: "node lib result t = Some (s, refs) \<Longrightarrow> Name s = t"
  by (auto simp: node_def split: sum.splits)

lemma populate_loop_node:
  "t \<notin> completed \<Longrightarrow>
     (node lib result t = None \<longrightarrow> (\<exists>p. populate_loop lib result (t # q) completed all = Inl p))
     \<and> (\<forall>s refs. node lib result t = Some (s, refs) \<longrightarrow>
          populate_loop lib result (t # q) completed all
            = populate_loop lib result (q @ refs) (insert t completed) (all @ [s]))"
proof (cases "properties_of result t")
  case (Inl p)
  assume "t \<notin> completed"
  with Inl show ?thesis by (simp add: node_def)
next
  case (Inr flds)
  assume t: "t \<notin> completed"
  show ?thesis
  proof (cases "\<forall>e\<in>set flds. field_of lib e \<noteq> None")
    case True
    from range_fields_entries[OF True, of "[]" "[]"] range_fields_entries[OF True, of q "[]"]
      Inr t show ?thesis
      by (simp add: node_def)
  next
    case False
    then have ex: "\<exists>e\<in>set flds. field_of lib e = None" by (meson not_Some_eq)
    from range_fields_fails[OF ex, of "[]" "[]"] range_fields_fails[OF ex, of q "[]"] Inr t
    show ?thesis by (auto simp: node_def)
  qed
qed

lemma loop_inv_done:
  assumes "loop_inv nd roots [] completed all"
  shows "enumerates nd roots all"
proof -
  have "t \<in> completed" if "reach nd roots t" for t
    using that
  proof (induction rule: reach.induct)
    case (root t)
    with assms show ?case by (auto simp: loop_inv_def)
  next
    case (ref t s refs u)
    with assms show ?case by (fastforce simp: loop_inv_def)
  qed
  with assms show ?thesis by (auto simp: loop_inv_def enumerates_def)
qed

lemma loop_inv_skip:
  assumes "loop_inv nd roots (t # q) completed all" "t \<in> completed"
  shows "loop_inv nd roots q completed all"
  using assms unfolding loop_inv_def by (simp add: insert_absorb)

lemma loop_inv_visit:
  assumes inv: "loop_inv nd roots (t # q) completed all" and t: "t \<notin> completed"
    and nd: "nd t = Some (s, refs)" and name: "Name s = t"
  shows "loop_inv nd roots (q @ refs) (insert t completed) (all @ [s])"
proof -
  from inv have r: "\<forall>u\<in>set (t # q) \<union> completed. reach nd roots u"
    and roots: "roots \<subseteq> completed \<union> set (t # q)"
    and closed: "\<forall>u\<in>completed. \<forall>s refs. nd u = Some (s, refs) \<longrightarrow> set refs \<subseteq> completed \<union> set (t # q)"
    and names: "set (map Name all) = completed" "distinct (map Name all)"
    and own: "\<forall>s\<in>set all. \<exists>refs. nd (Name s) = Some (s, refs)"
    by (simp_all add: loop_inv_def)
  from r have rt: "reach nd roots t" by simp
  have 1: "\<forall>u\<in>set (q @ refs) \<union> insert t completed. reach nd roots u"
    using r reach.ref[OF rt nd] by auto
  have 2: "roots \<subseteq> insert t completed \<union> set (q @ refs)"
    using roots by auto
  have 3: "\<forall>u\<in>insert t completed. \<forall>s' refs'. nd u = Some (s', refs') \<longrightarrow>
      set refs' \<subseteq> insert t completed \<union> set (q @ refs)"
  proof (intro ballI allI impI)
    fix u s' refs'
    assume u: "u \<in> insert t completed" and n: "nd u = Some (s', refs')"
    show "set refs' \<subseteq> insert t completed \<union> set (q @ refs)"
    proof (cases "u = t")
      case True
      with n nd show ?thesis by auto
    next
      case False
      with u closed n have "set refs' \<subseteq> completed \<union> set (t # q)" by blast
      then show ?thesis by auto
    qed
  qed
  have 4: "set (map Name (all @ [s])) = insert t completed" "distinct (map Name (all @ [s]))"
    using names t name by auto
  have 5: "\<forall>s'\<in>set (all @ [s]). \<exists>refs. nd (Name s') = Some (s', refs)"
    using own nd name by auto
  from 1 2 3 4 5 show ?thesis unfolding loop_inv_def by blast
qed

lemma populate_loop_enumerates:
  "loop_inv (node lib result) roots q completed all \<Longrightarrow>
     (\<forall>out. populate_loop lib result q completed all = Inr out \<longrightarrow>
        enumerates (node lib result) roots out)
     \<and> (\<forall>p. populate_loop lib result q completed all = Inl p \<longrightarrow>
          (\<exists>t. reach (node lib result) roots t \<and> node lib result t = None))"
proof (induction lib result q completed all rule: populate_loop.induct)
  case (1 lib result completed all)
  from loop_inv_done[OF "1.prems"] show ?case by simp
next
  case (2 lib result typeName typesQueue completed all)
  show ?case
  proof (cases "typeName \<in> completed")
    case True
    from "2.IH"(1)[OF True loop_inv_skip[OF "2.prems" True]] True show ?thesis by simp
  next
    case False
    note fresh = False
    show ?thesis
    proof (cases "node lib result typeName")
      case None
      from "2.prems" have "reach (node lib result) roots typeName"
        by (simp add: loop_inv_def)
      moreover from populate_loop_node[OF fresh, of lib result typesQueue all] None
      obtain p where "populate_loop lib result (typeName # typesQueue) completed all = Inl p"
        by blast
      ultimately show ?thesis using None by auto
    next
      case (Some a)
      obtain s refs where a: "a = (s, refs)" by (cases a)
      from Some a have nd: "node lib result typeName = Some (s, refs)" by simp
      from nd obtain flds subTypes where
        p: "properties_of result typeName = Inr flds"
        and r0: "range_fields lib flds [] [] = Inr (subTypes, refs)"
        and s: "s = ApiService typeName [] False [] (createVarName lib typeName)
                      (sort_Slice lib by_Name subTypes)"
        by (auto simp: node_def split: sum.splits)
      have all_ok: "\<forall>e\<in>set flds. field_of lib e \<noteq> None"
      proof (rule ccontr)
        assume "\<not> ?thesis"
        then have "\<exists>e\<in>set flds. field_of lib e = None" by (meson not_Some_eq)
        from range_fields_fails[OF this, of "[]" "[]"] r0 show False by auto
      qed
      from range_fields_entries[OF all_ok, of "[]" "[]"] r0
      have subs: "subTypes = map (\<lambda>e. fst (the (field_of lib e))) flds"
        and refs: "refs = concat (map (\<lambda>e. snd (the (field_of lib e))) flds)" by simp_all
      from range_fields_entries[OF all_ok, of typesQueue "[]"] subs refs
      have r: "range_fields lib flds typesQueue [] = Inr (subTypes, typesQueue @ refs)" by simp
      have inv': "loop_inv (node lib result) roots (typesQueue @ refs) (insert typeName completed)
          (all @ [s])"
        using "2.prems" fresh nd Name_node[OF nd] by (rule loop_inv_visit)
      have eq: "populate_loop lib result (typeName # typesQueue) completed all
          = populate_loop lib result (typesQueue @ refs) (insert typeName completed) (all @ [s])"
        using populate_loop_node[OF fresh, of lib result typesQueue all] nd by blast
      from "2.IH"(2)[OF fresh p r refl inv'[unfolded s]] show ?thesis
        unfolding eq s .
    qed
  qed
qed

lemma sort_Slice_unique:
  assumes c: "sort_Slice_contract lib" and m: "mset xs = mset ys"
    and d: "distinct (map Name xs)"
  shows "sort_Slice lib by_Name xs = sort_Slice lib by_Name ys"
proof -
  let ?a = "sort_Slice lib by_Name xs" and ?b = "sort_Slice lib by_Name ys"
  from c have ma: "mset ?a = mset xs" and mb: "mset ?b = mset ys"
    and sa: "sorted_by_Name ?a" and sb: "sorted_by_Name ?b"
    by (simp_all add: sort_Slice_contract_def)
  from ma mb m have mab: "mset ?a = mset ?b" by simp
  then have "mset (map Name ?a) = mset (map Name ?b)" by simp
  moreover from ma have "mset (map Name ?a) = mset (map Name xs)" by simp
  with d have da: "distinct (map Name ?a)" by (metis mset_eq_imp_distinct_iff)
  ultimately have db: "distinct (map Name ?b)" by (metis mset_eq_imp_distinct_iff)
  from sa sb have "sorted (map Name ?a)" "sorted (map Name ?b)"
    by (simp_all add: sorted_by_Name_def sorted_map)
  moreover from mab have "set (map Name ?a) = set (map Name ?b)"
    by (metis mset_eq_setD set_map)
  ultimately have names: "map Name ?a = map Name ?b"
    using da db by (auto intro: sorted_distinct_set_unique)
  from da have "inj_on Name (set ?a)" by (simp add: distinct_map)
  moreover from mab have "set ?b = set ?a" by (metis mset_eq_setD)
  ultimately have "inj_on Name (set ?a \<union> set ?b)" by simp
  with names show ?thesis by (simp add: inj_on_map_eq_map)
qed

lemma node_related:
  assumes c: "sort_Slice_contract lib" and same: "same_schemas result result'"
    and td: "titles_distinct lib result"
  shows "rel_option (\<lambda>(s, refs) (s', refs'). s = s' \<and> set refs = set refs')
     (node lib result t) (node lib result' t)"
proof (cases "properties_of result t")
  case (Inl p)
  with same have "properties_of result' t = Inl p"
    by (auto simp: same_schemas_def elim: rel_sum.cases dest!: spec[of _ t])
  with Inl show ?thesis by (simp add: node_cases)
next
  case (Inr flds)
  with same obtain flds' where p': "properties_of result' t = Inr flds'"
    and m: "mset flds = mset flds'"
    by (auto simp: same_schemas_def elim: rel_sum.cases dest!: spec[of _ t])
  from m have st: "set flds = set flds'" by (rule mset_eq_setD)
  show ?thesis
  proof (cases "\<forall>e\<in>set flds. field_of lib e \<noteq> None")
    case False
    with st have "\<not> (\<forall>e\<in>set flds'. field_of lib e \<noteq> None)" by simp
    with False have "node lib result t = None" "node lib result' t = None"
      unfolding node_cases Inr p' by simp_all
    then show ?thesis by simp
  next
    case True
    let ?f = "\<lambda>e. fst (the (field_of lib e))" and ?g = "\<lambda>e. snd (the (field_of lib e))"
    have nm: "Name (?f e) = Title lib (fst e)" if "e \<in> set flds" for e
    proof -
      from True that obtain a where "field_of lib e = Some a" by auto
      then show ?thesis by (auto simp: field_of_def split: sum.splits option.splits)
    qed
    then have eq: "map Name (map ?f flds) = map (\<lambda>(prop, val). Title lib prop) flds"
      by (auto simp: case_prod_unfold)
    from td Inr have "distinct (map (\<lambda>(prop, val). Title lib prop) flds)"
      unfolding titles_distinct_def by blast
    then have d: "distinct (map Name (map ?f flds))"
      unfolding eq .
    from m have "mset (map ?f flds) = mset (map ?f flds')" by (metis mset_map)
    from sort_Slice_unique[OF c this d]
    have s: "sort_Slice lib by_Name (map ?f flds) = sort_Slice lib by_Name (map ?f flds')" .
    have r: "set (concat (map ?g flds)) = set (concat (map ?g flds'))"
      using st by simp
    from True st have True': "\<forall>e\<in>set flds'. field_of lib e \<noteq> None" by simp
    from True True' have "node lib result t
        = Some (ApiService t [] False [] (createVarName lib t)
                  (sort_Slice lib by_Name (map ?f flds)), concat (map ?g flds))"
      "node lib result' t
        = Some (ApiService t [] False [] (createVarName lib t)
                  (sort_Slice lib by_Name (map ?f flds')), concat (map ?g flds'))"
      unfolding node_cases Inr p' by simp_all
    with s r show ?thesis by simp
  qed
qed

lemma reach_related:
  assumes rel: "\<And>t. rel_option (\<lambda>(s, refs) (s', refs'). s = s' \<and> set refs = set refs')
      (nd t) (nd' t)"
  shows "reach nd roots t \<Longrightarrow> reach nd' roots t"
proof (induction rule: reach.induct)
  case (root t)
  then show ?case by (rule reach.root)
next
  case (ref t s refs u)
  from rel[of t] ref.hyps(2) obtain refs' where "nd' t = Some (s, refs')" "set refs = set refs'"
    by (auto elim!: option.rel_cases)
  with ref.IH ref.hyps(3) show ?case by (auto intro: reach.ref)
qed

lemma enumerates_same:
  assumes rel: "\<And>t. rel_option (\<lambda>(s, refs) (s', refs'). s = s' \<and> set refs = set refs')
      (nd t) (nd' t)"
    and e: "enumerates nd roots out" and e': "enumerates nd' roots out'"
  shows "mset out = mset out' \<and> distinct (map Name out)"
proof -
  have rel': "rel_option (\<lambda>(s, refs) (s', refs'). s = s' \<and> set refs = set refs') (nd' t) (nd t)"
    for t using rel[of t] by (cases "nd t"; cases "nd' t") auto
  have same_reach: "reach nd roots t \<longleftrightarrow> reach nd' roots t" for t
    using reach_related[of nd nd', OF rel] reach_related[of nd' nd, OF rel'] by blast
  have sub: "set out \<subseteq> set out'" if e: "enumerates nd roots out" and e': "enumerates nd' roots out'"
    and rel: "\<And>t. rel_option (\<lambda>(s, refs) (s', refs'). s = s' \<and> set refs = set refs') (nd t) (nd' t)"
    and sr: "\<And>t. reach nd roots t \<longleftrightarrow> reach nd' roots t"
    for nd nd' :: "gostring \<Rightarrow> (ApiService \<times> gostring list) option" and out out'
  proof
    fix s assume s: "s \<in> set out"
    with e obtain refs where n: "nd (Name s) = Some (s, refs)" by (auto simp: enumerates_def)
    from s e have "reach nd roots (Name s)" by (force simp: enumerates_def)
    with sr have "reach nd' roots (Name s)" by simp
    with e' obtain s' where s': "s' \<in> set out'" "Name s' = Name s"
      by (force simp: enumerates_def)
    with e' obtain refs' where "nd' (Name s) = Some (s', refs')" by (force simp: enumerates_def)
    with rel[of "Name s"] n have "s = s'" by auto
    with s' show "s \<in> set out'" by simp
  qed
  from sub[OF e e' rel same_reach] sub[OF e' e rel' same_reach[symmetric]]
  have "set out = set out'" by blast
  moreover from e e' have "distinct out" "distinct out'" "distinct (map Name out)"
    by (auto simp: enumerates_def distinct_map)
  ultimately show ?thesis by (simp add: set_eq_iff_mset_eq_distinct)
qed

lemma loop_inv_start: "loop_inv nd (set q) q {} []"
  by (auto simp: loop_inv_def intro: reach.root)

lemma populate_loop_same:
  assumes c: "sort_Slice_contract lib" and same: "same_schemas result result'"
    and td: "titles_distinct lib result" and q: "set q = set q'"
  shows "rel_sum (\<lambda>p p'. True) (\<lambda>out out'. mset out = mset out' \<and> distinct (map Name out))
     (populate_loop lib result q {} []) (populate_loop lib result' q' {} [])"
proof -
  let ?nd = "node lib result" and ?nd' = "node lib result'"
  note rel = node_related[OF c same td]
  have rel': "rel_option (\<lambda>(s, refs) (s', refs'). s = s' \<and> set refs = set refs') (?nd' t) (?nd t)"
    for t using rel[of t] by (cases "?nd t"; cases "?nd' t") auto
  note run = populate_loop_enumerates[OF loop_inv_start, of lib result q]
  note run' = populate_loop_enumerates[OF loop_inv_start, of lib result' q', folded q]
  have none_ok: "\<forall>t. reach nd (set q) t \<longrightarrow> nd t \<noteq> None" if "enumerates nd (set q) out"
    for nd :: "gostring \<Rightarrow> (ApiService \<times> gostring list) option" and out
  proof (intro allI impI)
    fix t assume "reach nd (set q) t"
    with that obtain s where "s \<in> set out" "Name s = t" by (force simp: enumerates_def)
    with that show "nd t \<noteq> None" by (force simp: enumerates_def)
  qed
  show ?thesis
  proof (cases "populate_loop lib result q {} []")
    case (Inr out)
    with run have e: "enumerates ?nd (set q) out" by simp
    show ?thesis
    proof (cases "populate_loop lib result' q' {} []")
      case out': (Inr out')
      with run' have "enumerates ?nd' (set q) out'" by simp
      from enumerates_same[of ?nd ?nd', OF rel e this] Inr out' show ?thesis by simp
    next
      case (Inl p')
      with run' obtain t where "reach ?nd' (set q) t" "?nd' t = None" by blast
      with reach_related[of ?nd' ?nd, OF rel'] rel[of t] have "reach ?nd (set q) t" "?nd t = None"
        by (auto elim!: option.rel_cases)
      with none_ok[OF e] show ?thesis by blast
    qed
  next
    case (Inl p)
    with run obtain t where "reach ?nd (set q) t" "?nd t = None" by blast
    with reach_related[of ?nd ?nd', OF rel] rel[of t] have t': "reach ?nd' (set q) t" "?nd' t = None"
      by (auto elim!: option.rel_cases)
    show ?thesis
    proof (cases "populate_loop lib result' q' {} []")
      case (Inr out')
      with run' have "enumerates ?nd' (set q) out'" by simp
      from none_ok[OF this] t' show ?thesis by blast
    next
      case p': (Inl p')
      with Inl show ?thesis by simp
    qed
  qed
qed

lemmas meta_eval =
  init_def populateApiServices_def properties_of_def index_def finish_def createVarName_def
  example_lib_def insertion_sort_def by_Name_def MainServices_def str_def

lemma colliding_1:
  "init example_lib MainServices (Decoded (colliding_schemas [port_lower, port_upper]))
     = Inr [ApiService (str ''BackendService'') [] False [] (str ''backendService'')
              [ApiService (str ''Port'') (str ''port'') False (str ''integer'') [] [],
               ApiService (str ''Port'') (str ''Port'') False (str ''string'') [] []]]"
  by (simp add: meta_eval colliding_schemas_def port_lower_def port_upper_def)

lemma colliding_2:
  "init example_lib MainServices (Decoded (colliding_schemas [port_upper, port_lower]))
     = Inr [ApiService (str ''BackendService'') [] False [] (str ''backendService'')
              [ApiService (str ''Port'') (str ''Port'') False (str ''string'') [] [],
               ApiService (str ''Port'') (str ''port'') False (str ''integer'') [] []]]"
  by (simp add: meta_eval colliding_schemas_def port_lower_def port_upper_def)

lemma example_run:
  "map_sum id (map Name) (init example_lib MainServices (Decoded example_schemas))
     = Inr [str ''Backend'', str ''BackendService'']"
  by (simp add: meta_eval example_schemas_def)

lemma same_colliding:
  "same_schemas (colliding_schemas [port_lower, port_upper]) (colliding_schemas [port_upper, port_lower])"
  by (auto simp: same_schemas_def properties_of_def index_def colliding_schemas_def str_def)

text \<open>
  C9, the failing input: the schema \<^verbatim>\<open>BackendService\<close> with the two properties
  \<^verbatim>\<open>port\<close> and \<^verbatim>\<open>Port\<close>, which \<^verbatim>\<open>strings.Title\<close> gives the same \<^verbatim>\<open>Name\<close>.
  The same maps iterated in two orders give two different lists, with a
  \<^verbatim>\<open>sort.Slice\<close> that sorts: the comparison is by \<^verbatim>\<open>Name\<close> only, so the order of
  the two fields is the order of the iteration.
\<close>

theorem populateApiServices_order_dependent:
  "sort_Slice_contract example_lib
   \<and> same_schemas (colliding_schemas [port_lower, port_upper])
        (colliding_schemas [port_upper, port_lower])
   \<and> init example_lib MainServices (Decoded (colliding_schemas [port_lower, port_upper]))
       \<noteq> init example_lib MainServices (Decoded (colliding_schemas [port_upper, port_lower]))"
proof -
  have "init example_lib MainServices (Decoded (colliding_schemas [port_lower, port_upper]))
       \<noteq> init example_lib MainServices (Decoded (colliding_schemas [port_upper, port_lower]))"
    unfolding colliding_1 colliding_2 by (simp add: str_def)
  with example_lib_contract same_colliding show ?thesis by simp
qed

lemma strictly_sorted_by_Name:
  assumes "sorted_by_Name xs" "distinct (map Name xs)"
  shows "sorted_wrt (\<lambda>a b. Name a < Name b) xs"
proof -
  from assms(1) have "sorted (map Name xs)"
    by (simp add: sorted_by_Name_def sorted_wrt_map)
  with assms(2) have "sorted_wrt (<) (map Name xs)" by (simp add: strict_sorted_iff)
  then show ?thesis by (simp add: sorted_wrt_map)
qed

text \<open>
  C9. What the two sorts give, with a \<^verbatim>\<open>sort.Slice\<close> that sorts: after \<^verbatim>\<open>init\<close> has
  run \<^verbatim>\<open>populateApiServices\<close>, no two services of \<^verbatim>\<open>AllApiServices\<close> share a
  \<^verbatim>\<open>Name\<close> and the list is in strictly increasing order of \<^verbatim>\<open>Name\<close>; the
  \<^verbatim>\<open>Fields\<close> of every service in it are in non-decreasing order of \<^verbatim>\<open>Name\<close>; and
  when in no schema two properties share their capitalised name, two runs over the same
  maps, iterated in whatever orders, both panic or both end with the same list. What
  they do not give is the determinism the claim concludes (and the comments at the two
  sorts intend): on the schema with the properties \<^verbatim>\<open>port\<close> and \<^verbatim>\<open>Port\<close> the two
  orders of iteration over the same map end with the two fields in the two orders.
\<close>

theorem populateApiServices_sorted_not_deterministic:
  assumes "sort_Slice_contract lib"
  shows "(init lib ms apiFile = Inr all \<longrightarrow>
            distinct (map Name all) \<and> sorted_wrt (\<lambda>a b. Name a < Name b) all \<and>
            sorted_by_Name all \<and> list_all (\<lambda>s. sorted_by_Name (Fields s)) all)
     \<and> (mset ms' = mset ms \<and> same_schemas result result' \<and> titles_distinct lib result \<longrightarrow>
          rel_sum (\<lambda>p p'. True) (=)
            (init lib ms (Decoded result)) (init lib ms' (Decoded result')))
     \<and> sort_Slice_contract example_lib
     \<and> same_schemas (colliding_schemas [port_lower, port_upper])
          (colliding_schemas [port_upper, port_lower])
     \<and> init example_lib MainServices (Decoded (colliding_schemas [port_lower, port_upper]))
         = Inr [ApiService (str ''BackendService'') [] False [] (str ''backendService'')
                  [ApiService (str ''Port'') (str ''port'') False (str ''integer'') [] [],
                   ApiService (str ''Port'') (str ''Port'') False (str ''string'') [] []]]
     \<and> init example_lib MainServices (Decoded (colliding_schemas [port_upper, port_lower]))
         = Inr [ApiService (str ''BackendService'') [] False [] (str ''backendService'')
                  [ApiService (str ''Port'') (str ''Port'') False (str ''string'') [] [],
                   ApiService (str ''Port'') (str ''port'') False (str ''integer'') [] []]]"
proof -
  have sorted: "init lib ms apiFile = Inr all \<longrightarrow>
            distinct (map Name all) \<and> sorted_wrt (\<lambda>a b. Name a < Name b) all \<and>
            sorted_by_Name all \<and> list_all (\<lambda>s. sorted_by_Name (Fields s)) all"
  proof
    assume run: "init lib ms apiFile = Inr all"
    then obtain result where decoded: "apiFile = Decoded result"
      by (cases apiFile) (simp_all add: init_def populateApiServices_def)
    from run decoded obtain out where
      loop: "populate_loop lib result (map fst ms) {} [] = Inr out"
      by (cases "populate_loop lib result (map fst ms) {} []")
        (simp_all add: init_def populateApiServices_def)
    from run decoded loop have all: "all = sort_Slice lib by_Name out"
      by (simp add: init_def populateApiServices_def)
    from assms all have srt: "sorted_by_Name all" and ms: "mset all = mset out"
      by (simp_all add: sort_Slice_contract_def)
    from populate_loop_enumerates[OF loop_inv_start, of lib result "map fst ms"] loop
    have "distinct (map Name out)" by (simp add: enumerates_def)
    moreover from ms have "mset (map Name all) = mset (map Name out)" by simp
    ultimately have dst: "distinct (map Name all)" by (metis mset_eq_imp_distinct_iff)
    from populate_loop_Fields[OF loop assms]
    have "\<forall>s\<in>set out. sorted_by_Name (Fields s)" by simp
    moreover from ms have "set all = set out" by (metis mset_eq_setD)
    ultimately have fl: "list_all (\<lambda>s. sorted_by_Name (Fields s)) all"
      by (simp add: list_all_iff)
    from dst strictly_sorted_by_Name[OF srt dst] srt fl
    show "distinct (map Name all) \<and> sorted_wrt (\<lambda>a b. Name a < Name b) all \<and>
            sorted_by_Name all \<and> list_all (\<lambda>s. sorted_by_Name (Fields s)) all"
      by (intro conjI)
  qed
  have same: "mset ms' = mset ms \<and> same_schemas result result' \<and> titles_distinct lib result \<longrightarrow>
          rel_sum (\<lambda>p p'. True) (=)
            (init lib ms (Decoded result)) (init lib ms' (Decoded result'))"
  proof
    assume h: "mset ms' = mset ms \<and> same_schemas result result' \<and> titles_distinct lib result"
    then have "set (map fst ms) = set (map fst ms')" by (metis mset_eq_setD set_map)
    from populate_loop_same[OF assms _ _ this, of result result'] h
    have rel: "rel_sum (\<lambda>p p'. True) (\<lambda>out out'. mset out = mset out' \<and> distinct (map Name out))
       (populate_loop lib result (map fst ms) {} [])
       (populate_loop lib result' (map fst ms') {} [])"
      by simp
    show "rel_sum (\<lambda>p p'. True) (=)
        (init lib ms (Decoded result)) (init lib ms' (Decoded result'))"
    proof (cases "populate_loop lib result (map fst ms) {} []")
      case (Inl p)
      with rel obtain p' where "populate_loop lib result' (map fst ms') {} [] = Inl p'"
        by (cases "populate_loop lib result' (map fst ms') {} []") auto
      with Inl show ?thesis by (simp add: init_def populateApiServices_def)
    next
      case (Inr out)
      with rel obtain out' where
        out': "populate_loop lib result' (map fst ms') {} [] = Inr out'"
        and m: "mset out = mset out'" and d: "distinct (map Name out)"
        by (cases "populate_loop lib result' (map fst ms') {} []") auto
      from sort_Slice_unique[OF assms m d] Inr out' show ?thesis
        by (simp add: init_def populateApiServices_def)
    qed
  qed
  from sorted same example_lib_contract same_colliding colliding_1 colliding_2
  show ?thesis by (intro conjI)
qed

lemma same_example: "same_schemas example_schemas example_schemas_reordered"
  by (auto simp: same_schemas_def properties_of_def index_def example_schemas_def
      example_schemas_reordered_def str_def)

lemma titles_example: "titles_distinct example_lib example_schemas"
  by (auto simp: titles_distinct_def properties_of_def index_def example_schemas_def
      example_lib_def str_def split: if_splits)

theorem populateApiServices_sorted_not_deterministic_witness:
  "sort_Slice_contract example_lib
   \<and> mset MainServices = mset MainServices
   \<and> same_schemas example_schemas example_schemas_reordered
   \<and> titles_distinct example_lib example_schemas
   \<and> (\<exists>all. init example_lib MainServices (Decoded example_schemas) = Inr all
         \<and> map Name all = [str ''Backend'', str ''BackendService'']
         \<and> distinct (map Name all) \<and> sorted_wrt (\<lambda>a b. Name a < Name b) all
         \<and> sorted_by_Name all \<and> list_all (\<lambda>s. sorted_by_Name (Fields s)) all
         \<and> init example_lib MainServices (Decoded example_schemas_reordered) = Inr all)
   \<and> init example_lib MainServices (Decoded (colliding_schemas [port_lower, port_upper]))
       \<noteq> init example_lib MainServices (Decoded (colliding_schemas [port_upper, port_lower]))"
proof -
  from example_run obtain all where
    run: "init example_lib MainServices (Decoded example_schemas) = Inr all"
    and names: "map Name all = [str ''Backend'', str ''BackendService'']"
    by (cases "init example_lib MainServices (Decoded example_schemas)") auto
  note th = populateApiServices_sorted_not_deterministic[OF example_lib_contract,
      of MainServices "Decoded example_schemas" all MainServices example_schemas
      example_schemas_reordered]
  from th run have s: "distinct (map Name all)" "sorted_wrt (\<lambda>a b. Name a < Name b) all"
    "sorted_by_Name all" "list_all (\<lambda>s. sorted_by_Name (Fields s)) all"
    by blast+
  from th same_example titles_example
  have "rel_sum (\<lambda>p p'. True) (=) (init example_lib MainServices (Decoded example_schemas))
      (init example_lib MainServices (Decoded example_schemas_reordered))" by blast
  with run have re: "init example_lib MainServices (Decoded example_schemas_reordered) = Inr all"
    by (auto elim: rel_sum.cases)
  from th have
    "init example_lib MainServices (Decoded (colliding_schemas [port_lower, port_upper]))
         = Inr [ApiService (str ''BackendService'') [] False [] (str ''backendService'')
                  [ApiService (str ''Port'') (str ''port'') False (str ''integer'') [] [],
                   ApiService (str ''Port'') (str ''Port'') False (str ''string'') [] []]]"
    and
    "init example_lib MainServices (Decoded (colliding_schemas [port_upper, port_lower]))
         = Inr [ApiService (str ''BackendService'') [] False [] (str ''backendService'')
                  [ApiService (str ''Port'') (str ''Port'') False (str ''string'') [] [],
                   ApiService (str ''Port'') (str ''port'') False (str ''integer'') [] []]]"
    by blast+
  then have ne:
    "init example_lib MainServices (Decoded (colliding_schemas [port_lower, port_upper]))
       \<noteq> init example_lib MainServices (Decoded (colliding_schemas [port_upper, port_lower]))"
    by (simp add: str_def)
  have part: "\<exists>all. init example_lib MainServices (Decoded example_schemas) = Inr all
         \<and> map Name all = [str ''Backend'', str ''BackendService'']
         \<and> distinct (map Name all) \<and> sorted_wrt (\<lambda>a b. Name a < Name b) all
         \<and> sorted_by_Name all \<and> list_all (\<lambda>s. sorted_by_Name (Fields s)) all
         \<and> init example_lib MainServices (Decoded example_schemas_reordered) = Inr all"
    using run names s re by (intro exI[of _ all] conjI)
  have "mset MainServices = mset MainServices" by simp
  with example_lib_contract same_example titles_example part ne show ?thesis
    by (intro conjI)
qed

end
